theory Spec2Isabelle
  imports Main
begin

section \<open>Errors\<close>

text \<open>
  \<^verbatim>\<open>src/errors.ts\<close>: every error of the flow module is a \<^verbatim>\<open>FlowControlError\<close> with a
  message and an optional context object (the pair of states of a refused transition, or
  the error that \<^verbatim>\<open>wrap\<close> caught); \<^verbatim>\<open>BufferManager\<close> throws a plain \<^verbatim>\<open>Error\<close>.
  A value thrown by a callback of the library's user is opaque to the library: \<open>Thrown\<close>.
\<close>

datatype ConversationState = IDLE | WAITING | SPEAKING | INTERRUPTED

datatype error =
    FlowControlError string error_context
  | Error string
  | Thrown string
and error_context =
    NoContext
  | FromTo ConversationState ConversationState
  | Cause error

section \<open>The conversation state machine (\<^verbatim>\<open>src/flow/state-machine.ts\<close>)\<close>

text \<open>The string values of the enum, as they appear in the error message.\<close>

fun state_name :: "ConversationState \<Rightarrow> string" where
  "state_name IDLE = ''idle''"
| "state_name WAITING = ''waiting''"
| "state_name SPEAKING = ''speaking''"
| "state_name INTERRUPTED = ''interrupted''"

definition VALID_TRANSITIONS :: "(ConversationState \<times> ConversationState list) list" where
  "VALID_TRANSITIONS =
     [(IDLE, [SPEAKING, WAITING]),
      (WAITING, [SPEAKING, IDLE, INTERRUPTED]),
      (SPEAKING, [INTERRUPTED, IDLE]),
      (INTERRUPTED, [IDLE, WAITING])]"

text \<open>\<^verbatim>\<open>validTransitions?.includes(to)\<close>: false when the key is missing.\<close>

definition includes_opt :: "'a list option \<Rightarrow> 'a \<Rightarrow> bool" where
  "includes_opt v x = (case v of None \<Rightarrow> False | Some xs \<Rightarrow> x \<in> set xs)"

text \<open>
  A listener is a callback of the user. It acts on the world outside the machine (type \<open>'w\<close>),
  not on the machine itself, and either returns (\<open>None\<close>) or throws (\<open>Some e\<close>). The
  listeners are a JavaScript
  \<^verbatim>\<open>Set\<close>: insertion order, no duplicates; the natural number is the identity of the
  function object.
\<close>

type_synonym 'w state_listener =
  "ConversationState \<Rightarrow> ConversationState \<Rightarrow> 'w \<Rightarrow> 'w \<times> error option"

record 'w ConversationStateMachine =
  currentState :: ConversationState
  listeners :: "(nat \<times> 'w state_listener) list"

definition new_ConversationStateMachine :: "'w ConversationStateMachine" where
  "new_ConversationStateMachine = \<lparr>currentState = IDLE, listeners = []\<rparr>"

definition getState :: "'w ConversationStateMachine \<Rightarrow> ConversationState" where
  "getState sm = currentState sm"

text \<open>
  The loop \<^verbatim>\<open>for (const listener of this.listeners) listener(from, to)\<close>: there is no
  \<^verbatim>\<open>try\<close> around the call, so the first listener that throws ends the loop.
\<close>

fun notify_listeners ::
  "(nat \<times> 'w state_listener) list \<Rightarrow> ConversationState \<Rightarrow> ConversationState \<Rightarrow> 'w
     \<Rightarrow> 'w \<times> error option" where
  "notify_listeners [] from to w = (w, None)"
| "notify_listeners ((i, listener) # rest) from to w =
     (case listener from to w of
        (w', Some e) \<Rightarrow> (w', Some e)
      | (w', None) \<Rightarrow> notify_listeners rest from to w')"

text \<open>
  \<^verbatim>\<open>transition(to)\<close> returns the machine and the world as the call leaves them, and
  either \<open>Inr True\<close> (the \<^verbatim>\<open>return true\<close>) or \<open>Inl e\<close> for the exception that leaves
  the call.
\<close>

definition transition ::
  "ConversationState \<Rightarrow> 'w ConversationStateMachine \<Rightarrow> 'w
     \<Rightarrow> 'w ConversationStateMachine \<times> 'w \<times> (error + bool)" where
  "transition to sm w =
     (let validTransitions = map_of VALID_TRANSITIONS (currentState sm) in
      if \<not> includes_opt validTransitions to then
        (sm, w,
         Inl (FlowControlError
                (''Invalid state transition: '' @ state_name (currentState sm) @ '' -> ''
                   @ state_name to)
                (FromTo (currentState sm) to)))
      else
        let from = currentState sm;
            sm' = sm\<lparr>currentState := to\<rparr>
        in (case notify_listeners (listeners sm') from to w of
              (w', Some e) \<Rightarrow> (sm', w', Inl e)
            | (w', None) \<Rightarrow> (sm', w', Inr True)))"

definition onStateChange ::
  "nat \<times> 'w state_listener \<Rightarrow> 'w ConversationStateMachine \<Rightarrow> 'w ConversationStateMachine" where
  "onStateChange l sm =
     (if fst l \<in> fst ` set (listeners sm) then sm
      else sm\<lparr>listeners := listeners sm @ [l]\<rparr>)"

text \<open>The function \<^verbatim>\<open>onStateChange\<close> returns: \<^verbatim>\<open>() => this.listeners.delete(listener)\<close>.\<close>

definition unsubscribe :: "nat \<Rightarrow> 'w ConversationStateMachine \<Rightarrow> 'w ConversationStateMachine" where
  "unsubscribe i sm = sm\<lparr>listeners := filter (\<lambda>l. fst l \<noteq> i) (listeners sm)\<rparr>"

definition reset_sm :: "'w ConversationStateMachine \<Rightarrow> 'w ConversationStateMachine" where
  "reset_sm sm = sm\<lparr>currentState := IDLE\<rparr>"

text \<open>
  A caller that makes a sequence of \<^verbatim>\<open>transition\<close> calls, catching what each throws.
  The result lists, for each call, the state the machine was in, the requested state and
  what the call returned or threw.
\<close>

type_synonym attempt = "ConversationState \<times> ConversationState \<times> (error + bool)"

fun transitions ::
  "ConversationState list \<Rightarrow> 'w ConversationStateMachine \<Rightarrow> 'w
     \<Rightarrow> 'w ConversationStateMachine \<times> 'w \<times> attempt list" where
  "transitions [] sm w = (sm, w, [])"
| "transitions (to # rest) sm w =
     (case transition to sm w of
        (sm', w', r) \<Rightarrow>
          (case transitions rest sm' w' of
             (sm'', w'', rs) \<Rightarrow> (sm'', w'', (currentState sm, to, r) # rs)))"

text \<open>The transition table as the specification lists it.\<close>

definition spec_table :: "(ConversationState \<times> ConversationState) set" where
  "spec_table =
     {(IDLE, SPEAKING), (IDLE, WAITING),
      (WAITING, SPEAKING), (WAITING, IDLE), (WAITING, INTERRUPTED),
      (SPEAKING, INTERRUPTED), (SPEAKING, IDLE),
      (INTERRUPTED, IDLE), (INTERRUPTED, WAITING)}"

definition InvalidTransition :: "ConversationState \<Rightarrow> ConversationState \<Rightarrow> error" where
  "InvalidTransition from to =
     FlowControlError
       (''Invalid state transition: '' @ state_name from @ '' -> '' @ state_name to)
       (FromTo from to)"

text \<open>The targets of the attempts whose pair is in the table, in order.\<close>

definition applied_targets :: "attempt list \<Rightarrow> ConversationState list" where
  "applied_targets as = map (\<lambda>(from, to, r). to) (filter (\<lambda>(from, to, r). (from, to) \<in> spec_table) as)"

text \<open>
  A recording listener for the examples: it notes its identity and its arguments in the
  world, a list of the calls made, and then returns or throws.
\<close>

definition recording_listener ::
  "nat \<Rightarrow> error option
     \<Rightarrow> (nat \<times> ConversationState \<times> ConversationState) list state_listener" where
  "recording_listener i outcome = (\<lambda>from to log. (log @ [(i, from, to)], outcome))"

section \<open>The circular buffer (\<^verbatim>\<open>src/flow/buffer-manager.ts\<close>)\<close>

text \<open>
  \<open>maxSize\<close> is the constructor's argument, an integer that the constructor checks;
  \<open>head\<close> and \<open>bsize\<close> (the field \<^verbatim>\<open>size\<close>) only count up from zero. The
  assignment \<^verbatim>\<open>this.buffer[this.head] = chunk\<close> is a list update: it runs only when
  the buffer is full, and then \<open>head\<close> is below the length of the array (lemma
  \<open>buffer_inv_add\<close> below), so the assignment never extends the array.
\<close>

record BufferManager =
  buffer :: "string list"
  maxSize :: int
  head :: nat
  bsize :: nat

definition new_BufferManager :: "int \<Rightarrow> error + BufferManager" where
  "new_BufferManager n =
     (if n \<le> 0 then Inl (Error ''Buffer size must be positive'')
      else Inr \<lparr>buffer = [], maxSize = n, head = 0, bsize = 0\<rparr>)"

definition add :: "string \<Rightarrow> BufferManager \<Rightarrow> BufferManager" where
  "add chunk b =
     (if int (bsize b) < maxSize b then
        b\<lparr>buffer := buffer b @ [chunk], bsize := bsize b + 1\<rparr>
      else
        b\<lparr>buffer := (buffer b)[head b := chunk],
          head := nat ((int (head b) + 1) mod maxSize b)\<rparr>)"

definition getAll :: "BufferManager \<Rightarrow> string list" where
  "getAll b =
     (if int (bsize b) < maxSize b then buffer b
      else drop (head b) (buffer b) @ take (head b) (buffer b))"

definition clear :: "BufferManager \<Rightarrow> BufferManager" where
  "clear b = b\<lparr>buffer := [], head := 0, bsize := 0\<rparr>"

definition getSize :: "BufferManager \<Rightarrow> nat" where
  "getSize b = bsize b"

definition isEmpty :: "BufferManager \<Rightarrow> bool" where
  "isEmpty b \<longleftrightarrow> bsize b = 0"

definition isFull :: "BufferManager \<Rightarrow> bool" where
  "isFull b \<longleftrightarrow> int (bsize b) = maxSize b"

text \<open>A caller that adds the items of a list, first to last.\<close>

definition add_all :: "string list \<Rightarrow> BufferManager \<Rightarrow> BufferManager" where
  "add_all xs b = foldl (\<lambda>b x. add x b) b xs"

text \<open>What every buffer made by the constructor, \<open>add\<close> and \<open>clear\<close> satisfies.\<close>

definition buffer_inv :: "BufferManager \<Rightarrow> bool" where
  "buffer_inv b \<longleftrightarrow>
     0 < maxSize b \<and> length (buffer b) = bsize b \<and> int (bsize b) \<le> maxSize b \<and>
     (if int (bsize b) < maxSize b then head b = 0 else head b < bsize b)"

text \<open>The last \<open>n\<close> elements of a list, oldest first.\<close>

definition last_n :: "nat \<Rightarrow> 'a list \<Rightarrow> 'a list" where
  "last_n n xs = drop (length xs - n) xs"

subsection \<open>The same class on a store of arrays\<close>

text \<open>
  Whether a snapshot shares storage with the buffer is a question about references, so
  the class is given a second time with \<^verbatim>\<open>this.buffer\<close> a reference into a store of
  arrays: \<^verbatim>\<open>push\<close> and the indexed assignment write the array in place,
  \<^verbatim>\<open>[...a]\<close>, \<^verbatim>\<open>[...a, ...b]\<close> and \<^verbatim>\<open>[]\<close> allocate a new one. The function \<open>view\<close>
  reads an object and its store back as a \<open>BufferManager\<close>; the lemmas \<open>view_add\<close>,
  \<open>view_clear\<close> and \<open>o_getAll_content\<close> show that the two agree.
\<close>

type_synonym ref = nat

record store =
  arrays :: "ref \<Rightarrow> string list option"
  nextRef :: ref

definition empty_store :: store where
  "empty_store = \<lparr>arrays = (\<lambda>r. None), nextRef = 0\<rparr>"

text \<open>Every allocated reference is below the next one to be handed out.\<close>

definition store_ok :: "store \<Rightarrow> bool" where
  "store_ok st \<longleftrightarrow> (\<forall>r. arrays st r \<noteq> None \<longrightarrow> r < nextRef st)"

definition alloc :: "string list \<Rightarrow> store \<Rightarrow> ref \<times> store" where
  "alloc xs st =
     (nextRef st, st\<lparr>arrays := (arrays st)(nextRef st \<mapsto> xs), nextRef := Suc (nextRef st)\<rparr>)"

definition read_array :: "store \<Rightarrow> ref \<Rightarrow> string list" where
  "read_array st r = (case arrays st r of Some xs \<Rightarrow> xs | None \<Rightarrow> [])"

definition write_array :: "ref \<Rightarrow> string list \<Rightarrow> store \<Rightarrow> store" where
  "write_array r xs st = st\<lparr>arrays := (arrays st)(r \<mapsto> xs)\<rparr>"

record BufferObject =
  o_buffer :: ref
  o_maxSize :: int
  o_head :: nat
  o_size :: nat

definition new_BufferObject :: "int \<Rightarrow> store \<Rightarrow> error + BufferObject \<times> store" where
  "new_BufferObject n st =
     (if n \<le> 0 then Inl (Error ''Buffer size must be positive'')
      else case alloc [] st of
             (r, st') \<Rightarrow> Inr (\<lparr>o_buffer = r, o_maxSize = n, o_head = 0, o_size = 0\<rparr>, st'))"

definition o_add :: "string \<Rightarrow> BufferObject \<times> store \<Rightarrow> BufferObject \<times> store" where
  "o_add chunk = (\<lambda>(b, st).
     if int (o_size b) < o_maxSize b then
       (b\<lparr>o_size := o_size b + 1\<rparr>,
        write_array (o_buffer b) (read_array st (o_buffer b) @ [chunk]) st)
     else
       (b\<lparr>o_head := nat ((int (o_head b) + 1) mod o_maxSize b)\<rparr>,
        write_array (o_buffer b) ((read_array st (o_buffer b))[o_head b := chunk]) st))"

definition o_getAll :: "BufferObject \<times> store \<Rightarrow> ref \<times> store" where
  "o_getAll = (\<lambda>(b, st).
     if int (o_size b) < o_maxSize b then alloc (read_array st (o_buffer b)) st
     else alloc (drop (o_head b) (read_array st (o_buffer b))
                   @ take (o_head b) (read_array st (o_buffer b))) st)"

definition o_clear :: "BufferObject \<times> store \<Rightarrow> BufferObject \<times> store" where
  "o_clear = (\<lambda>(b, st).
     case alloc [] st of (r, st') \<Rightarrow> (b\<lparr>o_buffer := r, o_head := 0, o_size := 0\<rparr>, st'))"

definition o_add_all :: "string list \<Rightarrow> BufferObject \<times> store \<Rightarrow> BufferObject \<times> store" where
  "o_add_all xs bs = foldl (\<lambda>bs x. o_add x bs) bs xs"

definition view :: "BufferObject \<times> store \<Rightarrow> BufferManager" where
  "view = (\<lambda>(b, st).
     \<lparr>buffer = read_array st (o_buffer b), maxSize = o_maxSize b, head = o_head b,
      bsize = o_size b\<rparr>)"

text \<open>The object's array is allocated in a well-formed store.\<close>

definition owns :: "BufferObject \<times> store \<Rightarrow> bool" where
  "owns = (\<lambda>(b, st). store_ok st \<and> arrays st (o_buffer b) \<noteq> None)"

section \<open>The filler injector (\<^verbatim>\<open>src/flow/filler-injector.ts\<close>)\<close>

text \<open>
  \<^verbatim>\<open>lastFillerIndex\<close> is a JavaScript number: an integer, or \<^verbatim>\<open>NaN\<close> once the
  remainder by the length of an empty phrase list has been taken. \<open>js_rem\<close> is the
  operator \<^verbatim>\<open>%\<close> (the sign of the result is the sign of the dividend), \<open>js_index\<close>
  is \<^verbatim>\<open>phrases[i] ?? null\<close>: out of range and at \<^verbatim>\<open>NaN\<close> the read is
  \<^verbatim>\<open>undefined\<close>, which \<^verbatim>\<open>??\<close> turns into \<^verbatim>\<open>null\<close>.
\<close>

datatype js_number = Num int | NaN

fun js_succ :: "js_number \<Rightarrow> js_number" where
  "js_succ (Num i) = Num (i + 1)"
| "js_succ NaN = NaN"

fun js_rem :: "js_number \<Rightarrow> nat \<Rightarrow> js_number" where
  "js_rem NaN n = NaN"
| "js_rem (Num i) n =
     (if n = 0 then NaN
      else if 0 \<le> i then Num (i mod int n) else Num (- ((- i) mod int n)))"

fun js_index :: "'a list \<Rightarrow> js_number \<Rightarrow> 'a option" where
  "js_index xs NaN = None"
| "js_index xs (Num i) = (if 0 \<le> i \<and> i < int (length xs) then Some (xs ! nat i) else None)"

record FillerInjector =
  phrases :: "string list"
  maxFillers :: int
  fillersUsed :: int
  lastFillerIndex :: js_number

definition new_FillerInjector :: "string list \<Rightarrow> int \<Rightarrow> FillerInjector" where
  "new_FillerInjector ps m =
     \<lparr>phrases = ps, maxFillers = m, fillersUsed = 0, lastFillerIndex = Num (- 1)\<rparr>"

definition getFiller :: "FillerInjector \<Rightarrow> string option \<times> FillerInjector" where
  "getFiller f =
     (if fillersUsed f \<ge> maxFillers f then (None, f)
      else
        let f' = f\<lparr>lastFillerIndex :=
                     js_rem (js_succ (lastFillerIndex f)) (length (phrases f))\<rparr>;
            f'' = f'\<lparr>fillersUsed := fillersUsed f' + 1\<rparr>
        in (js_index (phrases f'') (lastFillerIndex f''), f''))"

definition reset_filler :: "FillerInjector \<Rightarrow> FillerInjector" where
  "reset_filler f = f\<lparr>fillersUsed := 0, lastFillerIndex := Num (- 1)\<rparr>"

definition canInjectMore :: "FillerInjector \<Rightarrow> bool" where
  "canInjectMore f \<longleftrightarrow> fillersUsed f < maxFillers f"

definition getUsedCount :: "FillerInjector \<Rightarrow> int" where
  "getUsedCount f = fillersUsed f"

text \<open>A caller that calls \<^verbatim>\<open>getFiller\<close> \<open>n\<close> times and keeps the results.\<close>

fun getFillers :: "nat \<Rightarrow> FillerInjector \<Rightarrow> string option list \<times> FillerInjector" where
  "getFillers 0 f = ([], f)"
| "getFillers (Suc n) f =
     (case getFiller f of
        (r, f') \<Rightarrow> (case getFillers n f' of (rs, f'') \<Rightarrow> (r # rs, f'')))"

text \<open>
  The sequence the specification describes: call number \<open>k\<close> (from zero) yields phrase
  \<open>k mod len\<close> while \<open>k\<close> is below the maximum, and null from then on.
\<close>

definition round_robin :: "string list \<Rightarrow> int \<Rightarrow> nat \<Rightarrow> string option" where
  "round_robin ps m k = (if int k < m then Some (ps ! (k mod length ps)) else None)"

text \<open>The state of an injector \<open>j\<close> successful calls after a reset.\<close>

definition rotating :: "FillerInjector \<Rightarrow> nat \<Rightarrow> bool" where
  "rotating f j \<longleftrightarrow>
     fillersUsed f = int j \<and>
     lastFillerIndex f =
       (if j = 0 then Num (- 1) else Num (int ((j - 1) mod length (phrases f))))"

section \<open>The stall detector (\<^verbatim>\<open>StallDetector\<close>, in \<^verbatim>\<open>src/errors.ts\<close>)\<close>

text \<open>
  The runtime's timers, as far as one detector uses them: \<^verbatim>\<open>setTimeout\<close> hands out a
  new handle and records the timeout with its delay as pending, \<^verbatim>\<open>clearTimeout\<close>
  removes it; a timeout that fires is removed and its callback runs.
  \<^verbatim>\<open>Date.now()\<close> is the argument \<open>now\<close> of each operation.
\<close>

record Timers =
  nextTimer :: nat
  pending :: "(nat \<times> int) list"

definition no_timers :: Timers where
  "no_timers = \<lparr>nextTimer = 0, pending = []\<rparr>"

definition setTimeout :: "int \<Rightarrow> Timers \<Rightarrow> nat \<times> Timers" where
  "setTimeout ms t =
     (nextTimer t,
      t\<lparr>nextTimer := Suc (nextTimer t), pending := pending t @ [(nextTimer t, ms)]\<rparr>)"

definition clearTimeout :: "nat \<Rightarrow> Timers \<Rightarrow> Timers" where
  "clearTimeout h t = t\<lparr>pending := filter (\<lambda>p. fst p \<noteq> h) (pending t)\<rparr>"

record StallDetector =
  lastChunkTime :: "int option"
  stallTimer :: "nat option"
  thresholdMs :: int

text \<open>
  The callback \<^verbatim>\<open>onStall\<close> acts on the world outside the detector and returns
  (\<open>None\<close>) or throws (\<open>Some e\<close>).
\<close>

type_synonym 'w stall_callback = "int \<Rightarrow> 'w \<Rightarrow> 'w \<times> error option"

definition new_StallDetector :: "int \<Rightarrow> StallDetector" where
  "new_StallDetector ms = \<lparr>lastChunkTime = None, stallTimer = None, thresholdMs = ms\<rparr>"

definition clearTimer :: "StallDetector \<times> Timers \<Rightarrow> StallDetector \<times> Timers" where
  "clearTimer = (\<lambda>(d, t).
     case stallTimer d of
       Some h \<Rightarrow> (d\<lparr>stallTimer := None\<rparr>, clearTimeout h t)
     | None \<Rightarrow> (d, t))"

definition scheduleStallCheck :: "StallDetector \<times> Timers \<Rightarrow> StallDetector \<times> Timers" where
  "scheduleStallCheck dt =
     (case clearTimer dt of
        (d, t) \<Rightarrow> (case setTimeout (thresholdMs d) t of
                     (h, t') \<Rightarrow> (d\<lparr>stallTimer := Some h\<rparr>, t')))"

definition notifyChunk :: "int \<Rightarrow> StallDetector \<times> Timers \<Rightarrow> StallDetector \<times> Timers" where
  "notifyChunk now = (\<lambda>(d, t).
     scheduleStallCheck (clearTimer (d\<lparr>lastChunkTime := Some now\<rparr>, t)))"

definition start_detector :: "int \<Rightarrow> StallDetector \<times> Timers \<Rightarrow> StallDetector \<times> Timers" where
  "start_detector now = (\<lambda>(d, t). scheduleStallCheck (d\<lparr>lastChunkTime := Some now\<rparr>, t))"

definition stop_detector :: "StallDetector \<times> Timers \<Rightarrow> StallDetector \<times> Timers" where
  "stop_detector dt = (case clearTimer dt of (d, t) \<Rightarrow> (d\<lparr>lastChunkTime := None\<rparr>, t))"

text \<open>
  The arrow function that \<^verbatim>\<open>scheduleStallCheck\<close> passes to \<^verbatim>\<open>setTimeout\<close>, run at
  time \<open>now\<close>. There is no \<^verbatim>\<open>else\<close> branch and no \<^verbatim>\<open>try\<close>.
\<close>

definition stallCheck ::
  "'w stall_callback \<Rightarrow> int \<Rightarrow> StallDetector \<times> Timers \<Rightarrow> 'w
     \<Rightarrow> (StallDetector \<times> Timers) \<times> 'w \<times> error option" where
  "stallCheck onStall now dt w =
     (case lastChunkTime (fst dt) of
        None \<Rightarrow> (dt, w, None)
      | Some lastChunk \<Rightarrow>
          let elapsed = now - lastChunk in
          if elapsed \<ge> thresholdMs (fst dt) then
            (case onStall elapsed w of
               (w', Some e) \<Rightarrow> (dt, w', Some e)
             | (w', None) \<Rightarrow> (scheduleStallCheck dt, w', None))
          else (dt, w, None))"

text \<open>
  The runtime fires the pending timeout \<open>h\<close> at time \<open>now\<close>: the timeout leaves the
  pending ones and its callback runs. A handle that is not pending does nothing.
\<close>

definition timeout_fires ::
  "nat \<Rightarrow> 'w stall_callback \<Rightarrow> int \<Rightarrow> StallDetector \<times> Timers \<Rightarrow> 'w
     \<Rightarrow> (StallDetector \<times> Timers) \<times> 'w \<times> error option" where
  "timeout_fires h onStall now = (\<lambda>(d, t) w.
     if h \<in> fst ` set (pending t) then stallCheck onStall now (d, clearTimeout h t) w
     else ((d, t), w, None))"

text \<open>Every pending timeout is the one the detector holds the handle of.\<close>

definition detector_inv :: "StallDetector \<times> Timers \<Rightarrow> bool" where
  "detector_inv = (\<lambda>(d, t). \<forall>p \<in> set (pending t). stallTimer d = Some (fst p))"

text \<open>A recording callback for the examples: it notes the duration and returns or throws.\<close>

definition recording_onStall :: "error option \<Rightarrow> int list stall_callback" where
  "recording_onStall outcome = (\<lambda>elapsed log. (log @ [elapsed], outcome))"

section \<open>Constants and configuration (\<^verbatim>\<open>constants.ts\<close>, \<^verbatim>\<open>types.ts\<close>)\<close>

definition DEFAULT_STALL_THRESHOLD_MS :: int where
  "DEFAULT_STALL_THRESHOLD_MS = 700"

definition DEFAULT_FILLER_PHRASES :: "string list" where
  "DEFAULT_FILLER_PHRASES = [''um'', ''let me think'', ''hmm'']"

definition DEFAULT_MAX_FILLERS_PER_RESPONSE :: int where
  "DEFAULT_MAX_FILLERS_PER_RESPONSE = 3"

text \<open>\<^verbatim>\<open>value ?? fallback\<close>\<close>

definition nullish :: "'a option \<Rightarrow> 'a \<Rightarrow> 'a" where
  "nullish v fallback = (case v of None \<Rightarrow> fallback | Some x \<Rightarrow> x)"

text \<open>
  \<^verbatim>\<open>if (filler)\<close>: \<^verbatim>\<open>null\<close> and the empty string are falsy; \<open>truthy\<close> keeps the
  string that passes the test.
\<close>

fun truthy :: "string option \<Rightarrow> string option" where
  "truthy None = None"
| "truthy (Some s) = (if s = [] then None else Some s)"

text \<open>The options both classes resolve in their constructors.\<close>

record FlowSettings =
  stallThresholdMs :: int
  fillerPhrases :: "string list"
  enableFillers :: bool
  maxFillersPerResponse :: int

record FlowStats =
  fillersInjected :: nat
  stallsDetected :: nat
  chunksProcessed :: nat
  firstChunkTime :: "int option"
  totalDurationMs :: int

definition initial_stats :: FlowStats where
  "initial_stats =
     \<lparr>fillersInjected = 0, stallsDetected = 0, chunksProcessed = 0, firstChunkTime = None,
      totalDurationMs = 0\<rparr>"

datatype FlowEvent =
    StallDetected int
  | FillerInjected string
  | FirstChunk string
  | StateChange ConversationState ConversationState
  | Interrupted
  | ChunkProcessed string
  | Completed FlowStats

text \<open>A call that has returned (\<open>None\<close>) or thrown, and what follows it when it returned.\<close>

definition then_do :: "'s \<times> error option \<Rightarrow> ('s \<Rightarrow> 's \<times> error option) \<Rightarrow> 's \<times> error option" where
  "then_do r f = (case r of (s, Some e) \<Rightarrow> (s, Some e) | (s, None) \<Rightarrow> f s)"

section \<open>The fields and the code the two orchestrators share\<close>

text \<open>
  \<^verbatim>\<open>FlowManager\<close> and \<^verbatim>\<open>FlowController\<close> declare the same private fields, and their
  \<^verbatim>\<open>reset\<close> methods are the same text. The type \<open>'w\<close> is the world the listeners of the
  state machine act on, \<open>'c\<close> the resolved configuration. \<open>timers\<close> holds the
  timeouts of the detector.
\<close>

record ('w, 'c) Flow =
  config :: 'c
  stateMachine :: "'w ConversationStateMachine"
  stallDetector :: StallDetector
  timers :: Timers
  fillerInjector :: FillerInjector
  bufferManager :: BufferManager
  firstChunkEmitted :: bool
  stats :: FlowStats
  startTime :: "int option"

definition reset :: "('w, 'c, 'z) Flow_scheme \<Rightarrow> ('w, 'c, 'z) Flow_scheme" where
  "reset m =
     m\<lparr>firstChunkEmitted := False,
       fillerInjector := reset_filler (fillerInjector m),
       bufferManager := clear (bufferManager m),
       stats := initial_stats\<rparr>"

text \<open>A method of the detector called on the field \<^verbatim>\<open>this.stallDetector\<close>.\<close>

definition with_detector ::
  "(StallDetector \<times> Timers \<Rightarrow> StallDetector \<times> Timers)
     \<Rightarrow> ('w, 'c, 'z) Flow_scheme \<Rightarrow> ('w, 'c, 'z) Flow_scheme" where
  "with_detector f m =
     (case f (stallDetector m, timers m) of (d, t) \<Rightarrow> m\<lparr>stallDetector := d, timers := t\<rparr>)"

definition getBufferedChunks :: "('w, 'c, 'z) Flow_scheme \<Rightarrow> string list" where
  "getBufferedChunks m = getAll (bufferManager m)"

definition getStats :: "('w, 'c, 'z) Flow_scheme \<Rightarrow> FlowStats" where
  "getStats m = stats m"

definition getState_flow :: "('w, 'c, 'z) Flow_scheme \<Rightarrow> ConversationState" where
  "getState_flow m = getState (stateMachine m)"

section \<open>The event-based manager (\<^verbatim>\<open>FlowManager\<close>, \<^verbatim>\<open>src/flow/flow-manager.ts\<close>)\<close>

text \<open>
  An event listener is a callback of the user: it acts on the user's world \<open>'u\<close> and
  returns or throws; it does not call back into the manager. What \<^verbatim>\<open>emit\<close> reads and writes is kept together: the set
  \<^verbatim>\<open>this.listeners\<close> (insertion order, no duplicates, a number for the identity of
  each function), the user's world, the record of the calls \<open>listener(event)\<close> made so
  far, and what went to \<^verbatim>\<open>console.error\<close>.
\<close>

type_synonym 'u FlowEventListener = "FlowEvent \<Rightarrow> 'u \<Rightarrow> 'u \<times> error option"

record 'u Emitter =
  event_listeners :: "(nat \<times> 'u FlowEventListener) list"
  user :: 'u
  calls :: "(nat \<times> FlowEvent) list"
  console :: "error list"

fun emit_loop :: "(nat \<times> 'u FlowEventListener) list \<Rightarrow> FlowEvent \<Rightarrow> 'u Emitter \<Rightarrow> 'u Emitter" where
  "emit_loop [] event e = e"
| "emit_loop ((i, listener) # rest) event e =
     (case listener event (user e) of
        (u', None) \<Rightarrow>
          emit_loop rest event (e\<lparr>user := u', calls := calls e @ [(i, event)]\<rparr>)
      | (u', Some err) \<Rightarrow>
          emit_loop rest event
            (e\<lparr>user := u', calls := calls e @ [(i, event)], console := console e @ [err]\<rparr>))"

definition emit_to :: "FlowEvent \<Rightarrow> 'u Emitter \<Rightarrow> 'u Emitter" where
  "emit_to event e = emit_loop (event_listeners e) event e"

text \<open>The argument of the constructor: every option may be absent.\<close>

record FlowManagerConfig =
  opt_stallThresholdMs :: "int option"
  opt_fillerPhrases :: "string list option"
  opt_enableFillers :: "bool option"
  opt_maxFillersPerResponse :: "int option"
  opt_bufferSize :: "int option"

record Required_FlowManagerConfig = FlowSettings +
  bufferSize :: int

record 'u FlowManager = "('u Emitter, Required_FlowManagerConfig) Flow" +
  emitter :: "'u Emitter"
  stateChangeUnsubscribe :: "nat option"

definition new_FlowManager :: "FlowManagerConfig \<Rightarrow> 'u \<Rightarrow> error + 'u FlowManager" where
  "new_FlowManager cfg u =
     (let resolved =
        \<lparr>stallThresholdMs = nullish (opt_stallThresholdMs cfg) DEFAULT_STALL_THRESHOLD_MS,
         fillerPhrases = nullish (opt_fillerPhrases cfg) DEFAULT_FILLER_PHRASES,
         enableFillers = nullish (opt_enableFillers cfg) True,
         maxFillersPerResponse =
           nullish (opt_maxFillersPerResponse cfg) DEFAULT_MAX_FILLERS_PER_RESPONSE,
         bufferSize = nullish (opt_bufferSize cfg) 10\<rparr>
      in case new_BufferManager (bufferSize resolved) of
           Inl e \<Rightarrow> Inl e
         | Inr b \<Rightarrow>
             Inr \<lparr>config = resolved,
                  stateMachine = new_ConversationStateMachine,
                  stallDetector = new_StallDetector (stallThresholdMs resolved),
                  timers = no_timers,
                  fillerInjector =
                    new_FillerInjector (fillerPhrases resolved) (maxFillersPerResponse resolved),
                  bufferManager = b,
                  firstChunkEmitted = False,
                  stats = initial_stats,
                  startTime = None,
                  emitter = \<lparr>event_listeners = [], user = u, calls = [], console = []\<rparr>,
                  stateChangeUnsubscribe = None\<rparr>)"

text \<open>The constructor called with no options, and the error of a second \<^verbatim>\<open>start\<close>.\<close>

definition no_options :: FlowManagerConfig where
  "no_options =
     \<lparr>opt_stallThresholdMs = None, opt_fillerPhrases = None, opt_enableFillers = None,
      opt_maxFillersPerResponse = None, opt_bufferSize = None\<rparr>"

definition already_started :: error where
  "already_started = FlowControlError ''FlowManager already started'' NoContext"

text \<open>The manager \<^verbatim>\<open>new FlowManager()\<close> of a user whose world is trivial.\<close>

definition fresh_manager :: "unit FlowManager" where
  "fresh_manager =
     \<lparr>config = \<lparr>stallThresholdMs = 700, fillerPhrases = [''um'', ''let me think'', ''hmm''],
                 enableFillers = True, maxFillersPerResponse = 3, bufferSize = 10\<rparr>,
      stateMachine = \<lparr>currentState = IDLE, listeners = []\<rparr>,
      stallDetector = \<lparr>lastChunkTime = None, stallTimer = None, thresholdMs = 700\<rparr>,
      timers = \<lparr>nextTimer = 0, pending = []\<rparr>,
      fillerInjector =
        \<lparr>phrases = [''um'', ''let me think'', ''hmm''], maxFillers = 3, fillersUsed = 0,
         lastFillerIndex = Num (- 1)\<rparr>,
      bufferManager = \<lparr>buffer = [], maxSize = 10, head = 0, bsize = 0\<rparr>,
      firstChunkEmitted = False,
      stats = initial_stats,
      startTime = None,
      emitter = \<lparr>event_listeners = [], user = (), calls = [], console = []\<rparr>,
      stateChangeUnsubscribe = None\<rparr>"

definition on :: "nat \<times> 'u FlowEventListener \<Rightarrow> 'u FlowManager \<Rightarrow> 'u FlowManager" where
  "on l m =
     (if fst l \<in> fst ` set (event_listeners (emitter m)) then m
      else m\<lparr>emitter := (emitter m)\<lparr>event_listeners := event_listeners (emitter m) @ [l]\<rparr>\<rparr>)"

text \<open>The function \<^verbatim>\<open>on\<close> returns.\<close>

definition off :: "nat \<Rightarrow> 'u FlowManager \<Rightarrow> 'u FlowManager" where
  "off i m =
     m\<lparr>emitter :=
         (emitter m)\<lparr>event_listeners := filter (\<lambda>l. fst l \<noteq> i) (event_listeners (emitter m))\<rparr>\<rparr>"

definition emit :: "FlowEvent \<Rightarrow> 'u FlowManager \<Rightarrow> 'u FlowManager" where
  "emit event m = m\<lparr>emitter := emit_to event (emitter m)\<rparr>"

text \<open>
  \<^verbatim>\<open>this.stateMachine.transition(to)\<close> inside the manager: the listeners of the machine
  act on what \<^verbatim>\<open>emit\<close> acts on.
\<close>

definition fm_transition :: "ConversationState \<Rightarrow> 'u FlowManager \<Rightarrow> 'u FlowManager \<times> error option" where
  "fm_transition to m =
     (case transition to (stateMachine m) (emitter m) of
        (sm', e', r) \<Rightarrow>
          (m\<lparr>stateMachine := sm', emitter := e'\<rparr>,
           case r of Inl err \<Rightarrow> Some err | Inr ok \<Rightarrow> None))"

text \<open>The closure \<^verbatim>\<open>(from, to) => this.emit({type: 'state-change', from, to})\<close>.\<close>

definition state_change_listener :: "'u Emitter state_listener" where
  "state_change_listener = (\<lambda>from to e. (emit_to (StateChange from to) e, None))"

text \<open>A new function object is none of those already in the set.\<close>

definition fresh_listener :: "(nat \<times> 'a) list \<Rightarrow> nat" where
  "fresh_listener ls = Suc (fold max (map fst ls) 0)"

definition start :: "int \<Rightarrow> 'u FlowManager \<Rightarrow> 'u FlowManager \<times> error option" where
  "start now m =
     (if startTime m \<noteq> None then
        (m, Some (FlowControlError ''FlowManager already started'' NoContext))
      else
        then_do (fm_transition WAITING ((reset m)\<lparr>startTime := Some now\<rparr>))
          (\<lambda>m1.
             let m2 = with_detector (start_detector now) m1;
                 i = fresh_listener (listeners (stateMachine m2))
             in (m2\<lparr>stateMachine := onStateChange (i, state_change_listener) (stateMachine m2),
                    stateChangeUnsubscribe := Some i\<rparr>, None)))"

definition processChunk :: "int \<Rightarrow> string \<Rightarrow> 'u FlowManager \<Rightarrow> 'u FlowManager \<times> error option" where
  "processChunk now chunk m =
     (case startTime m of
        None \<Rightarrow>
          (m, Some (FlowControlError ''FlowManager not started. Call start() first.'' NoContext))
      | Some started \<Rightarrow>
          if getState (stateMachine m) = INTERRUPTED then (m, None)
          else
            let m1 = with_detector (notifyChunk now) m;
                m2 = m1\<lparr>stats := (stats m1)\<lparr>chunksProcessed := chunksProcessed (stats m1) + 1\<rparr>\<rparr>;
                m3 = m2\<lparr>bufferManager := add chunk (bufferManager m2)\<rparr>
            in then_do
                 (if \<not> firstChunkEmitted m3 then
                    let m4 = m3\<lparr>firstChunkEmitted := True\<rparr>;
                        m5 = m4\<lparr>stats := (stats m4)\<lparr>firstChunkTime := Some (now - started)\<rparr>\<rparr>
                    in then_do (fm_transition SPEAKING m5)
                         (\<lambda>m6. (emit (FirstChunk chunk) m6, None))
                  else (m3, None))
                 (\<lambda>m7. (emit (ChunkProcessed chunk) m7, None)))"

definition complete :: "int \<Rightarrow> 'u FlowManager \<Rightarrow> 'u FlowManager \<times> error option" where
  "complete now m =
     (case startTime m of
        None \<Rightarrow> (m, Some (FlowControlError ''FlowManager not started'' NoContext))
      | Some started \<Rightarrow>
          let m1 = with_detector stop_detector m;
              m2 = m1\<lparr>stats := (stats m1)\<lparr>totalDurationMs := now - started\<rparr>\<rparr>
          in then_do
               (if getState (stateMachine m2) \<noteq> INTERRUPTED then fm_transition IDLE m2
                else (m2, None))
               (\<lambda>m3.
                  let m4 = emit (Completed (getStats m3)) m3;
                      m5 = (case stateChangeUnsubscribe m4 of
                              Some i \<Rightarrow>
                                m4\<lparr>stateMachine := unsubscribe i (stateMachine m4),
                                   stateChangeUnsubscribe := None\<rparr>
                            | None \<Rightarrow> m4)
                  in (m5\<lparr>startTime := None\<rparr>, None)))"

definition interrupt :: "'u FlowManager \<Rightarrow> 'u FlowManager \<times> error option" where
  "interrupt m =
     (let currentState = getState (stateMachine m) in
      if currentState = SPEAKING \<or> currentState = WAITING then
        then_do (fm_transition INTERRUPTED m)
          (\<lambda>m1.
             let m2 = with_detector stop_detector m1;
                 m3 = m2\<lparr>fillerInjector := reset_filler (fillerInjector m2)\<rparr>;
                 m4 = m3\<lparr>bufferManager := clear (bufferManager m3)\<rparr>
             in (emit Interrupted m4, None))
      else (m, None))"

text \<open>The callback the constructor gives to the detector. It never throws.\<close>

definition handleStall :: "int \<Rightarrow> 'u FlowManager \<Rightarrow> 'u FlowManager" where
  "handleStall durationMs m =
     (let m1 = m\<lparr>stats := (stats m)\<lparr>stallsDetected := stallsDetected (stats m) + 1\<rparr>\<rparr>;
          m2 = emit (StallDetected durationMs) m1
      in if enableFillers (config m2) \<and> \<not> firstChunkEmitted m2
            \<and> getState (stateMachine m2) \<noteq> INTERRUPTED then
           (case getFiller (fillerInjector m2) of
              (filler, f') \<Rightarrow>
                let m3 = m2\<lparr>fillerInjector := f'\<rparr> in
                (case truthy filler of
                   Some phrase \<Rightarrow>
                     emit (FillerInjected phrase)
                       (m3\<lparr>stats := (stats m3)
                            \<lparr>fillersInjected := fillersInjected (stats m3) + 1\<rparr>\<rparr>)
                 | None \<Rightarrow> m3))
         else m2)"

text \<open>
  The runtime fires the timeout \<open>h\<close> of the manager's detector. The callback
  \<open>handleStall\<close> works on the manager and leaves the detector's fields alone; the
  detector's own code changes nothing but them.
\<close>

definition timer_fires :: "nat \<Rightarrow> int \<Rightarrow> 'u FlowManager \<Rightarrow> 'u FlowManager" where
  "timer_fires h now m =
     (case timeout_fires h (\<lambda>elapsed w. (handleStall elapsed w, None)) now
             (stallDetector m, timers m) m of
        (dt, m', r) \<Rightarrow> m'\<lparr>stallDetector := fst dt, timers := snd dt\<rparr>)"

text \<open>
  What a user of a manager can make happen, each with the time at which it happens: the
  public methods, and the passing of time that lets a timeout fire. A caller catches what
  a method throws and goes on.
\<close>

datatype 'u call =
    Start int
  | ProcessChunk int string
  | Complete int
  | Interrupt
  | TimerFires nat int
  | On nat "'u FlowEventListener"
  | Off nat

fun perform :: "'u call \<Rightarrow> 'u FlowManager \<Rightarrow> 'u FlowManager \<times> error option" where
  "perform (Start now) m = start now m"
| "perform (ProcessChunk now chunk) m = processChunk now chunk m"
| "perform (Complete now) m = complete now m"
| "perform Interrupt m = interrupt m"
| "perform (TimerFires h now) m = (timer_fires h now m, None)"
| "perform (On i l) m = (on (i, l) m, None)"
| "perform (Off i) m = (off i m, None)"

definition run :: "'u call list \<Rightarrow> 'u FlowManager \<Rightarrow> 'u FlowManager" where
  "run cs m = foldl (\<lambda>m c. fst (perform c m)) m cs"


fun is_Complete :: "'u call \<Rightarrow> bool" where
  "is_Complete (Complete now) = True"
| "is_Complete c = False"

fun is_filler :: "nat \<times> FlowEvent \<Rightarrow> bool" where
  "is_filler (i, FillerInjected p) = True"
| "is_filler (i, ev) = False"

text \<open>
  The second emitter has received the calls of the first and then only calls that do not
  deliver a filler.
\<close>

definition no_new_filler :: "'u Emitter \<Rightarrow> 'u Emitter \<Rightarrow> bool" where
  "no_new_filler e e' \<longleftrightarrow>
     take (length (calls e)) (calls e') = calls e
     \<and> \<not> list_ex is_filler (drop (length (calls e)) (calls e'))"

text \<open>The detector is stopped: no last-activity time, no handle, no pending timeout.\<close>

definition stopped :: "('w, 'c, 'z) Flow_scheme \<Rightarrow> bool" where
  "stopped m \<longleftrightarrow>
     lastChunkTime (stallDetector m) = None \<and> stallTimer (stallDetector m) = None
     \<and> pending (timers m) = []"

text \<open>What holds of every manager a user can reach from the constructor.\<close>

definition fm_inv :: "'u FlowManager \<Rightarrow> bool" where
  "fm_inv m \<longleftrightarrow>
     (case startTime m of
        None \<Rightarrow> currentState (stateMachine m) \<in> {IDLE, INTERRUPTED}
                 \<and> stateChangeUnsubscribe m = None
      | Some t \<Rightarrow>
          stateChangeUnsubscribe m \<noteq> None \<and>
          (if firstChunkEmitted m then currentState (stateMachine m) \<in> {SPEAKING, INTERRUPTED}
           else currentState (stateMachine m) \<in> {WAITING, INTERRUPTED}))
     \<and> listeners (stateMachine m) =
         (case stateChangeUnsubscribe m of
            None \<Rightarrow> []
          | Some i \<Rightarrow> [(i, state_change_listener)])
     \<and> detector_inv (stallDetector m, timers m)
     \<and> buffer_inv (bufferManager m)"

section \<open>The stream wrapper (\<^verbatim>\<open>FlowController\<close>, \<^verbatim>\<open>src/flow/flow-controller.ts\<close>)\<close>

text \<open>The callbacks of the configuration are the user's: they act on the user's world.\<close>

record 'u FlowConfig =
  opt_stallThresholdMs_c :: "int option"
  opt_fillerPhrases_c :: "string list option"
  opt_enableFillers_c :: "bool option"
  opt_maxFillersPerResponse_c :: "int option"
  opt_onFillerInjected :: "(string \<Rightarrow> 'u \<Rightarrow> 'u \<times> error option) option"
  opt_onStallDetected :: "(int \<Rightarrow> 'u \<Rightarrow> 'u \<times> error option) option"
  opt_onFirstChunk :: "('u \<Rightarrow> 'u \<times> error option) option"

record 'u Required_FlowConfig = FlowSettings +
  onFillerInjected :: "string \<Rightarrow> 'u \<Rightarrow> 'u \<times> error option"
  onStallDetected :: "int \<Rightarrow> 'u \<Rightarrow> 'u \<times> error option"
  onFirstChunk :: "'u \<Rightarrow> 'u \<times> error option"

record 'u FlowController = "('u, 'u Required_FlowConfig) Flow" +
  world :: 'u

text \<open>
  The constructor. \<^verbatim>\<open>new BufferManager(10)\<close> cannot throw, so its result is taken
  apart with a fallback that is never used.
\<close>

definition new_FlowController :: "'u FlowConfig \<Rightarrow> 'u \<Rightarrow> error + 'u FlowController" where
  "new_FlowController cfg u =
     (let resolved =
        \<lparr>stallThresholdMs = nullish (opt_stallThresholdMs_c cfg) DEFAULT_STALL_THRESHOLD_MS,
         fillerPhrases = nullish (opt_fillerPhrases_c cfg) DEFAULT_FILLER_PHRASES,
         enableFillers = nullish (opt_enableFillers_c cfg) True,
         maxFillersPerResponse =
           nullish (opt_maxFillersPerResponse_c cfg) DEFAULT_MAX_FILLERS_PER_RESPONSE,
         onFillerInjected = nullish (opt_onFillerInjected cfg) (\<lambda>filler w. (w, None)),
         onStallDetected = nullish (opt_onStallDetected cfg) (\<lambda>durationMs w. (w, None)),
         onFirstChunk = nullish (opt_onFirstChunk cfg) (\<lambda>w. (w, None))\<rparr>
      in case new_BufferManager 10 of
           Inl e \<Rightarrow> Inl e
         | Inr b \<Rightarrow>
             Inr \<lparr>config = resolved,
                  stateMachine = new_ConversationStateMachine,
                  stallDetector = new_StallDetector (stallThresholdMs resolved),
                  timers = no_timers,
                  fillerInjector =
                    new_FillerInjector (fillerPhrases resolved) (maxFillersPerResponse resolved),
                  bufferManager = b,
                  firstChunkEmitted = False,
                  stats = initial_stats,
                  startTime = None,
                  world = u\<rparr>)"

definition no_options_c :: "'u FlowConfig" where
  "no_options_c =
     \<lparr>opt_stallThresholdMs_c = None, opt_fillerPhrases_c = None, opt_enableFillers_c = None,
      opt_maxFillersPerResponse_c = None, opt_onFillerInjected = None,
      opt_onStallDetected = None, opt_onFirstChunk = None\<rparr>"

text \<open>The controller \<^verbatim>\<open>new FlowController()\<close> of a user whose world is trivial.\<close>

definition fresh_controller :: "unit FlowController" where
  "fresh_controller =
     \<lparr>config = \<lparr>stallThresholdMs = 700, fillerPhrases = [''um'', ''let me think'', ''hmm''],
                 enableFillers = True, maxFillersPerResponse = 3,
                 onFillerInjected = (\<lambda>filler w. (w, None)),
                 onStallDetected = (\<lambda>durationMs w. (w, None)),
                 onFirstChunk = (\<lambda>w. (w, None))\<rparr>,
      stateMachine = \<lparr>currentState = IDLE, listeners = []\<rparr>,
      stallDetector = \<lparr>lastChunkTime = None, stallTimer = None, thresholdMs = 700\<rparr>,
      timers = \<lparr>nextTimer = 0, pending = []\<rparr>,
      fillerInjector =
        \<lparr>phrases = [''um'', ''let me think'', ''hmm''], maxFillers = 3, fillersUsed = 0,
         lastFillerIndex = Num (- 1)\<rparr>,
      bufferManager = \<lparr>buffer = [], maxSize = 10, head = 0, bsize = 0\<rparr>,
      firstChunkEmitted = False,
      stats = initial_stats,
      startTime = None,
      world = ()\<rparr>"

text \<open>A controller whose \<^verbatim>\<open>onStallDetected\<close> callback throws.\<close>

definition throwing_config :: "unit FlowConfig" where
  "throwing_config =
     no_options_c\<lparr>opt_onStallDetected := Some (\<lambda>durationMs w. (w, Some (Thrown ''boom'')))\<rparr>"

definition throwing_controller :: "unit FlowController" where
  "throwing_controller =
     fresh_controller
       \<lparr>config := (config fresh_controller)
          \<lparr>onStallDetected := (\<lambda>durationMs w. (w, Some (Thrown ''boom'')))\<rparr>\<rparr>"

text \<open>A callback of the configuration, called on the user's world.\<close>

definition callback ::
  "('u \<Rightarrow> 'u \<times> error option) \<Rightarrow> 'u FlowController \<Rightarrow> 'u FlowController \<times> error option" where
  "callback f c = (case f (world c) of (w', r) \<Rightarrow> (c\<lparr>world := w'\<rparr>, r))"

definition fc_transition ::
  "ConversationState \<Rightarrow> 'u FlowController \<Rightarrow> 'u FlowController \<times> error option" where
  "fc_transition to c =
     (case transition to (stateMachine c) (world c) of
        (sm', w', r) \<Rightarrow>
          (c\<lparr>stateMachine := sm', world := w'\<rparr>,
           case r of Inl err \<Rightarrow> Some err | Inr ok \<Rightarrow> None))"

definition interrupt_fc :: "'u FlowController \<Rightarrow> 'u FlowController \<times> error option" where
  "interrupt_fc c =
     (let currentState = getState (stateMachine c) in
      if currentState = SPEAKING \<or> currentState = WAITING then
        then_do (fc_transition INTERRUPTED c)
          (\<lambda>c1.
             let c2 = with_detector stop_detector c1;
                 c3 = c2\<lparr>fillerInjector := reset_filler (fillerInjector c2)\<rparr>
             in (c3\<lparr>bufferManager := clear (bufferManager c3)\<rparr>, None))
      else (c, None))"

definition handleStall_fc :: "int \<Rightarrow> 'u FlowController \<Rightarrow> 'u FlowController \<times> error option" where
  "handleStall_fc durationMs c =
     then_do
       (if enableFillers (config c) \<and> \<not> firstChunkEmitted c
           \<and> getState (stateMachine c) \<noteq> INTERRUPTED then
          (case getFiller (fillerInjector c) of
             (filler, f') \<Rightarrow>
               let c1 = c\<lparr>fillerInjector := f'\<rparr> in
               (case truthy filler of
                  Some phrase \<Rightarrow>
                    callback (onFillerInjected (config c1) phrase)
                      (c1\<lparr>stats := (stats c1)
                           \<lparr>fillersInjected := fillersInjected (stats c1) + 1\<rparr>\<rparr>)
                | None \<Rightarrow> (c1, None)))
        else (c, None))
       (\<lambda>c2.
          callback (onStallDetected (config c2) durationMs)
            (c2\<lparr>stats := (stats c2)\<lparr>stallsDetected := stallsDetected (stats c2) + 1\<rparr>\<rparr>))"

text \<open>
  The timeout of the controller's detector fires. What \<open>handleStall_fc\<close> throws leaves
  the timer callback and reaches no caller of the controller.
\<close>

definition timer_fires_fc :: "nat \<Rightarrow> int \<Rightarrow> 'u FlowController \<Rightarrow> 'u FlowController" where
  "timer_fires_fc h now c =
     (case timeout_fires h handleStall_fc now (stallDetector c, timers c) c of
        (dt, c', r) \<Rightarrow> c'\<lparr>stallDetector := fst dt, timers := snd dt\<rparr>)"

subsection \<open>The generator \<^verbatim>\<open>wrap\<close>\<close>

text \<open>
  The generator is run by its consumer, one resumption at a time. \<open>wrap_begin\<close> is the
  code before the loop, \<open>wrap_chunk\<close> one turn of the loop for a chunk the input has
  delivered, \<open>wrap_after_loop\<close> the code after the loop (reached when the input ends and
  by the \<^verbatim>\<open>break\<close>), \<open>wrap_caught\<close> the \<^verbatim>\<open>catch\<close> clause and \<open>wrap_finally\<close> the
  \<^verbatim>\<open>finally\<close> clause.
\<close>

datatype resumption = Yielded string | Returned | Threw error

definition wrap_begin :: "int \<Rightarrow> 'u FlowController \<Rightarrow> 'u FlowController \<times> error option" where
  "wrap_begin now c =
     then_do (fc_transition WAITING ((reset c)\<lparr>startTime := Some now\<rparr>))
       (\<lambda>c1. (with_detector (start_detector now) c1, None))"

definition wrap_finally :: "int \<Rightarrow> 'u FlowController \<Rightarrow> 'u FlowController" where
  "wrap_finally now c =
     (let c1 = with_detector stop_detector c
      in c1\<lparr>stats := (stats c1)\<lparr>totalDurationMs := now - nullish (startTime c1) now\<rparr>\<rparr>)"

definition wrap_caught :: "int \<Rightarrow> error \<Rightarrow> 'u FlowController \<Rightarrow> 'u FlowController \<times> resumption" where
  "wrap_caught now e c =
     (wrap_finally now c,
      Threw (FlowControlError ''Flow control error during stream processing'' (Cause e)))"

definition wrap_after_loop :: "int \<Rightarrow> 'u FlowController \<Rightarrow> 'u FlowController \<times> resumption" where
  "wrap_after_loop now c =
     (if getState (stateMachine c) \<noteq> INTERRUPTED then
        (case fc_transition IDLE c of
           (c', Some e) \<Rightarrow> wrap_caught now e c'
         | (c', None) \<Rightarrow> (wrap_finally now c', Returned))
      else (wrap_finally now c, Returned))"

definition wrap_chunk :: "int \<Rightarrow> string \<Rightarrow> 'u FlowController \<Rightarrow> 'u FlowController \<times> resumption" where
  "wrap_chunk now chunk c =
     (if getState (stateMachine c) = INTERRUPTED then wrap_after_loop now c
      else
        let c1 = with_detector (notifyChunk now) c;
            c2 = c1\<lparr>stats := (stats c1)\<lparr>chunksProcessed := chunksProcessed (stats c1) + 1\<rparr>\<rparr>;
            c3 = c2\<lparr>bufferManager := add chunk (bufferManager c2)\<rparr>
        in case (if \<not> firstChunkEmitted c3 then
                   let c4 = c3\<lparr>firstChunkEmitted := True\<rparr>;
                       c5 = c4\<lparr>stats := (stats c4)
                              \<lparr>firstChunkTime := Some (now - nullish (startTime c4) now)\<rparr>\<rparr>
                   in then_do (fc_transition SPEAKING c5)
                        (\<lambda>c6. callback (onFirstChunk (config c6)) c6)
                 else (c3, None)) of
             (c7, Some e) \<Rightarrow> wrap_caught now e c7
           | (c7, None) \<Rightarrow> (c7, Yielded chunk))"

text \<open>
  One iteration \<^verbatim>\<open>for await (const chunk of controller.wrap(input))\<close>: the controller,
  whether the generator is still running, and the chunks it has yielded. \<open>Begin\<close> is
  the call of \<^verbatim>\<open>wrap\<close> with the first resumption of the new generator; an iteration
  begun earlier is given up. Between two resumptions the user may call
  \<^verbatim>\<open>interrupt\<close> and a timeout may fire. A generator that has returned or thrown is not
  resumed.
\<close>

record 'u Iteration =
  ctl :: "'u FlowController"
  running :: bool
  yielded :: "string list"

datatype wrap_event =
    Begin int
  | Input int string
  | InputEnd int
  | InputError int error
  | CallInterrupt
  | Timeout nat int

definition wrap_start :: "int \<Rightarrow> 'u FlowController \<Rightarrow> 'u Iteration" where
  "wrap_start now c =
     (case wrap_begin now c of
        (c', None) \<Rightarrow> \<lparr>ctl = c', running = True, yielded = []\<rparr>
      | (c', Some e) \<Rightarrow> \<lparr>ctl = c', running = False, yielded = []\<rparr>)"

definition resumed :: "'u Iteration \<Rightarrow> 'u FlowController \<times> resumption \<Rightarrow> 'u Iteration" where
  "resumed it r =
     (case r of
        (c', Yielded chunk) \<Rightarrow> it\<lparr>ctl := c', yielded := yielded it @ [chunk]\<rparr>
      | (c', Returned) \<Rightarrow> it\<lparr>ctl := c', running := False\<rparr>
      | (c', Threw e) \<Rightarrow> it\<lparr>ctl := c', running := False\<rparr>)"

fun wrap_step :: "wrap_event \<Rightarrow> 'u Iteration \<Rightarrow> 'u Iteration" where
  "wrap_step (Begin now) it = wrap_start now (ctl it)"
| "wrap_step (Input now chunk) it =
     (if running it then resumed it (wrap_chunk now chunk (ctl it)) else it)"
| "wrap_step (InputEnd now) it =
     (if running it then resumed it (wrap_after_loop now (ctl it)) else it)"
| "wrap_step (InputError now e) it =
     (if running it then resumed it (wrap_caught now e (ctl it)) else it)"
| "wrap_step CallInterrupt it = it\<lparr>ctl := fst (interrupt_fc (ctl it))\<rparr>"
| "wrap_step (Timeout h now) it = it\<lparr>ctl := timer_fires_fc h now (ctl it)\<rparr>"

definition wrap_steps :: "wrap_event list \<Rightarrow> 'u Iteration \<Rightarrow> 'u Iteration" where
  "wrap_steps es it = foldl (\<lambda>it e. wrap_step e it) it es"

text \<open>A controller on which \<^verbatim>\<open>wrap\<close> has not been called yet.\<close>

definition idle :: "'u FlowController \<Rightarrow> 'u Iteration" where
  "idle c = \<lparr>ctl = c, running = False, yielded = []\<rparr>"

fun is_Begin :: "wrap_event \<Rightarrow> bool" where
  "is_Begin (Begin now) = True"
| "is_Begin e = False"

text \<open>What holds of every controller a user can reach from the constructor.\<close>

definition fc_inv :: "'u FlowController \<Rightarrow> bool" where
  "fc_inv c \<longleftrightarrow>
     listeners (stateMachine c) = []
     \<and> detector_inv (stallDetector c, timers c)
     \<and> buffer_inv (bufferManager c)"

section \<open>Properties of the state machine\<close>

lemma includes_table:
  "includes_opt (map_of VALID_TRANSITIONS from) to \<longleftrightarrow> (from, to) \<in> spec_table"
  by (cases "from"; cases "to") (simp_all add: VALID_TRANSITIONS_def includes_opt_def spec_table_def)

lemma transition_invalid:
  "(currentState sm, to) \<notin> spec_table \<Longrightarrow>
     transition to sm w = (sm, w, Inl (InvalidTransition (currentState sm) to))"
  by (simp add: transition_def includes_table InvalidTransition_def)

lemma transition_valid_state:
  "(currentState sm, to) \<in> spec_table \<Longrightarrow> transition to sm w = (sm', w', r) \<Longrightarrow>
     currentState sm' = to \<and> listeners sm' = listeners sm"
  by (auto simp: transition_def includes_table Let_def split: prod.splits option.splits)

lemma transitions_last:
  "transitions tos sm w = (sm', w', as) \<Longrightarrow>
     currentState sm' = last (currentState sm # applied_targets as)"
proof (induction tos arbitrary: sm w sm' w' as)
  case Nil
  then show ?case by (simp add: applied_targets_def)
next
  case (Cons t rest)
  obtain sm1 w1 r where step: "transition t sm w = (sm1, w1, r)"
    by (cases "transition t sm w") auto
  obtain sm2 w2 rs where run: "transitions rest sm1 w1 = (sm2, w2, rs)"
    by (cases "transitions rest sm1 w1") auto
  from Cons.prems step run have eqs: "sm' = sm2" "as = (currentState sm, t, r) # rs"
    by simp_all
  from Cons.IH [OF run] have ih: "currentState sm2 = last (currentState sm1 # applied_targets rs)" .
  show ?case
  proof (cases "(currentState sm, t) \<in> spec_table")
    case True
    from transition_valid_state [OF True step] have "currentState sm1 = t" by simp
    with ih eqs True show ?thesis by (simp add: applied_targets_def)
  next
    case False
    with step have "sm1 = sm" by (simp add: transition_invalid)
    with ih eqs False show ?thesis by (simp add: applied_targets_def)
  qed
qed

lemma transitions_invalid:
  "transitions tos sm w = (sm', w', as) \<Longrightarrow> (from, to, r) \<in> set as \<Longrightarrow>
     (from, to) \<notin> spec_table \<Longrightarrow> r = Inl (InvalidTransition from to)"
proof (induction tos arbitrary: sm w sm' w' as)
  case Nil
  then show ?case by simp
next
  case (Cons t rest)
  obtain sm1 w1 r1 where step: "transition t sm w = (sm1, w1, r1)"
    by (cases "transition t sm w") auto
  obtain sm2 w2 rs where run: "transitions rest sm1 w1 = (sm2, w2, rs)"
    by (cases "transitions rest sm1 w1") auto
  from Cons.prems(1) step run have eqs: "as = (currentState sm, t, r1) # rs"
    by simp
  from Cons.prems(2) eqs consider "(from, to, r) = (currentState sm, t, r1)" | "(from, to, r) \<in> set rs"
    by auto
  then show ?case
  proof cases
    case 1
    with Cons.prems(3) step show ?thesis by (auto simp: transition_invalid)
  next
    case 2
    from Cons.IH [OF run 2 Cons.prems(3)] show ?thesis .
  qed
qed

text \<open>
  Claim C1. Whatever the listeners do, after any sequence of \<^verbatim>\<open>transition\<close> calls on a
  machine that starts in \<open>IDLE\<close> the state is the target of the last call whose
  (from, to) pair was in the table (or \<open>IDLE\<close> when there was none); a call whose pair is
  outside the table throws the invalid-transition error that carries the pair, and leaves
  the machine and the world as they were.
\<close>

theorem C1_transition_table:
  fixes sm :: "'w ConversationStateMachine"
  assumes "currentState sm = IDLE"
  shows "(\<forall>tos w sm' w' as. transitions tos sm w = (sm', w', as) \<longrightarrow>
            getState sm' = last (IDLE # applied_targets as) \<and>
            (\<forall>(from, to, r) \<in> set as.
               (from, to) \<notin> spec_table \<longrightarrow> r = Inl (InvalidTransition from to)))
       \<and> (\<forall>(m :: 'w ConversationStateMachine) to w.
            (currentState m, to) \<notin> spec_table \<longrightarrow>
              transition to m w = (m, w, Inl (InvalidTransition (currentState m) to)))"
proof (intro conjI allI impI)
  fix tos w sm' w' as
  assume run: "transitions tos sm w = (sm', w', as)"
  from transitions_last [OF run] assms
  show "getState sm' = last (IDLE # applied_targets as)" by (simp add: getState_def)
  show "\<forall>(from, to, r) \<in> set as. (from, to) \<notin> spec_table \<longrightarrow> r = Inl (InvalidTransition from to)"
    using transitions_invalid [OF run] by auto
next
  fix m :: "'w ConversationStateMachine" and t w
  assume "(currentState m, t) \<notin> spec_table"
  then show "transition t m w = (m, w, Inl (InvalidTransition (currentState m) t))"
    by (rule transition_invalid)
qed

theorem C1_transition_table_witness:
  "currentState (new_ConversationStateMachine :: unit ConversationStateMachine) = IDLE
   \<and> transitions [WAITING, INTERRUPTED, SPEAKING, IDLE] new_ConversationStateMachine ()
       = (\<lparr>currentState = IDLE, listeners = []\<rparr>, (),
          [(IDLE, WAITING, Inr True), (WAITING, INTERRUPTED, Inr True),
           (INTERRUPTED, SPEAKING, Inl (InvalidTransition INTERRUPTED SPEAKING)),
           (INTERRUPTED, IDLE, Inr True)])
   \<and> getState \<lparr>currentState = IDLE, listeners = ([] :: (nat \<times> unit state_listener) list)\<rparr>
       = last (IDLE # applied_targets
           [(IDLE, WAITING, Inr True), (WAITING, INTERRUPTED, Inr True),
            (INTERRUPTED, SPEAKING, Inl (InvalidTransition INTERRUPTED SPEAKING)),
            (INTERRUPTED, IDLE, Inr True)])"
proof -
  let ?sm = "new_ConversationStateMachine :: unit ConversationStateMachine"
  have start: "currentState ?sm = IDLE"
    by (simp add: new_ConversationStateMachine_def)
  have run: "transitions [WAITING, INTERRUPTED, SPEAKING, IDLE] ?sm ()
       = (\<lparr>currentState = IDLE, listeners = []\<rparr>, (),
          [(IDLE, WAITING, Inr True), (WAITING, INTERRUPTED, Inr True),
           (INTERRUPTED, SPEAKING, Inl (InvalidTransition INTERRUPTED SPEAKING)),
           (INTERRUPTED, IDLE, Inr True)])"
    by (simp add: new_ConversationStateMachine_def transition_def VALID_TRANSITIONS_def
        includes_opt_def InvalidTransition_def)
  from C1_transition_table [OF start] run start show ?thesis
    by blast
qed

section \<open>Properties of the circular buffer\<close>

lemma buffer_inv_add: "buffer_inv b \<Longrightarrow> buffer_inv (add x b)"
  by (auto simp: buffer_inv_def add_def nat_less_iff split: if_splits)

lemma rotate_step:
  assumes "h < length B"
  shows "drop (Suc h) (B[h := x]) @ take (Suc h) (B[h := x]) = tl (drop h B @ take h B) @ [x]"
proof -
  from assms have t: "take (Suc h) (B[h := x]) = take h B @ [x]"
    by (simp add: take_Suc_conv_app_nth)
  have d: "drop (Suc h) (B[h := x]) = drop (Suc h) B"
    by simp
  from assms have "drop h B \<noteq> []" by simp
  then have "tl (drop h B @ take h B) = tl (drop h B) @ take h B"
    by simp
  also have "tl (drop h B) = drop (Suc h) B"
    by (simp add: drop_Suc drop_tl)
  finally show ?thesis using t d by simp
qed

lemma getAll_add:
  assumes "buffer_inv b"
  shows "getAll (add x b) =
     (if int (bsize b) < maxSize b then getAll b @ [x] else tl (getAll b) @ [x])"
proof (cases "int (bsize b) < maxSize b")
  case True
  with assms have "head b = 0" by (simp add: buffer_inv_def)
  with True assms show ?thesis
    by (auto simp: add_def getAll_def buffer_inv_def)
next
  case False
  with assms have full: "maxSize b = int (length (buffer b))" and h: "head b < length (buffer b)"
    and sz: "bsize b = length (buffer b)"
    by (auto simp: buffer_inv_def)
  let ?h = "head b" and ?B = "buffer b"
  show ?thesis
  proof (cases "Suc ?h < length ?B")
    case True
    then have "nat ((int ?h + 1) mod maxSize b) = Suc ?h"
      using full by (simp add: nat_add_distrib)
    with False rotate_step [OF h, of x] show ?thesis
      by (simp add: add_def getAll_def)
  next
    case wrap: False
    with h have l: "length ?B = Suc ?h" by simp
    then have "nat ((int ?h + 1) mod maxSize b) = 0"
      using full by (simp add: add.commute)
    moreover from l have "drop (Suc ?h) (?B[?h := x]) = []" "take (Suc ?h) (?B[?h := x]) = ?B[?h := x]"
      by simp_all
    ultimately show ?thesis
      using False rotate_step [OF h, of x] by (simp add: add_def getAll_def)
  qed
qed

lemma buffer_inv_add_all: "buffer_inv b \<Longrightarrow> buffer_inv (add_all xs b)"
  by (induction xs arbitrary: b) (simp_all add: add_all_def buffer_inv_add)

lemma bsize_add_all:
  "buffer_inv b \<Longrightarrow> int (bsize (add_all xs b)) = min (maxSize b) (int (bsize b + length xs))
     \<and> maxSize (add_all xs b) = maxSize b"
proof (induction xs rule: rev_induct)
  case Nil
  then show ?case by (simp add: add_all_def buffer_inv_def)
next
  case (snoc x xs)
  then show ?case by (auto simp: add_all_def add_def)
qed

lemma length_getAll: "buffer_inv b \<Longrightarrow> length (getAll b) = bsize b"
  by (auto simp: buffer_inv_def getAll_def)

lemma add_all_snoc: "add_all (xs @ [x]) b = add x (add_all xs b)"
  by (simp add: add_all_def)

lemma last_n_snoc:
  "0 < c \<Longrightarrow> last_n c (S @ [x]) = (if length S < c then last_n c S @ [x] else tl (last_n c S) @ [x])"
  by (auto simp: last_n_def drop_Suc drop_tl Suc_diff_le simp flip: tl_drop)

lemma getAll_add_all:
  assumes "buffer_inv b"
  shows "getAll (add_all xs b) = last_n (nat (maxSize b)) (getAll b @ xs)"
proof (induction xs rule: rev_induct)
  case Nil
  from assms have "int (bsize b) \<le> maxSize b"
    by (simp add: buffer_inv_def)
  then have "bsize b - nat (maxSize b) = 0"
    by linarith
  with assms show ?case
    by (simp add: add_all_def last_n_def length_getAll)
next
  case (snoc x xs)
  let ?b = "add_all xs b"
  have inv: "buffer_inv ?b" using assms by (rule buffer_inv_add_all)
  from bsize_add_all [OF assms, of xs]
  have sz: "int (bsize ?b) = min (maxSize b) (int (bsize b + length xs))" and mx: "maxSize ?b = maxSize b"
    by simp_all
  from assms have pos: "0 < nat (maxSize b)" by (simp add: buffer_inv_def)
  have len: "length (getAll b @ xs) = bsize b + length xs"
    using assms by (simp add: length_getAll)
  have "int (bsize ?b) < maxSize ?b \<longleftrightarrow> length (getAll b @ xs) < nat (maxSize b)"
    using sz mx len by auto
  with getAll_add [OF inv, of x] snoc.IH last_n_snoc [OF pos, of "getAll b @ xs" x]
  show ?case
    by (simp add: add_all_snoc)
qed


lemma view_new:
  "new_BufferObject n st = Inr bs \<Longrightarrow> new_BufferManager n = Inr (view bs)"
  by (auto simp: new_BufferObject_def new_BufferManager_def view_def alloc_def read_array_def
      split: if_splits)

lemma view_add: "view (o_add x bs) = add x (view bs)"
  by (cases bs) (simp add: o_add_def add_def view_def read_array_def write_array_def)

lemma view_add_all: "view (o_add_all xs bs) = add_all xs (view bs)"
  by (induction xs arbitrary: bs) (simp_all add: o_add_all_def add_all_def view_add)

lemma view_clear: "view (o_clear bs) = clear (view bs)"
  by (cases bs) (simp add: o_clear_def clear_def view_def alloc_def read_array_def)

lemma o_getAll_content:
  "o_getAll bs = (r, st') \<Longrightarrow> read_array st' r = getAll (view bs)"
  by (cases bs) (auto simp: o_getAll_def getAll_def view_def alloc_def read_array_def split: if_splits)

lemma owns_new: "store_ok st \<Longrightarrow> new_BufferObject n st = Inr bs \<Longrightarrow> owns bs"
  by (auto simp: new_BufferObject_def owns_def alloc_def store_ok_def less_Suc_eq split: if_splits)

lemma owns_add: "owns bs \<Longrightarrow> owns (o_add x bs)"
  by (cases bs) (auto simp: o_add_def owns_def write_array_def store_ok_def)

lemma owns_add_all: "owns bs \<Longrightarrow> owns (o_add_all xs bs)"
  by (induction xs arbitrary: bs) (simp_all add: o_add_all_def owns_add)

lemma o_getAll_fresh:
  assumes "owns (b, st)" and "o_getAll (b, st) = (r, st')"
  shows "arrays st r = None \<and> r \<noteq> o_buffer b \<and> owns (b, st')
       \<and> (\<forall>ys. view (b, write_array r ys st') = view (b, st))"
  using assms
  by (auto simp: owns_def o_getAll_def alloc_def store_ok_def view_def write_array_def read_array_def
      less_Suc_eq split: if_splits)

lemma buffer_inv_new: "new_BufferManager n = Inr b \<Longrightarrow> buffer_inv b \<and> getAll b = [] \<and> maxSize b = n"
  by (auto simp: new_BufferManager_def buffer_inv_def getAll_def split: if_splits)

lemma buffer_inv_clear: "buffer_inv b \<Longrightarrow> buffer_inv (clear b)"
  by (simp add: buffer_inv_def clear_def)

lemma getAll_clear: "buffer_inv b \<Longrightarrow> getAll (clear b) = []"
  by (simp add: buffer_inv_def clear_def getAll_def)

lemma round_trip:
  assumes "new_BufferManager c = Inr b"
  shows "getAll (add_all xs b) = last_n (nat c) xs"
  using buffer_inv_new [OF assms] getAll_add_all [of b xs] by simp

text \<open>
  Claim C4. For a positive capacity \<open>c\<close>, construction succeeds, and after \<open>c + k\<close>
  items have been added to the new buffer the snapshot holds the last \<open>c\<close> of them,
  oldest first: all of them when \<open>k = 0\<close>. The array \<^verbatim>\<open>getAll\<close> returns is newly
  allocated, is not the array of the buffer, and whatever the caller writes into it, the
  buffer and its next snapshot are as before.
\<close>

theorem C4_buffer_round_trip:
  assumes "0 < c" and "length xs = nat c + k" and "store_ok st"
  shows "\<exists>b0 st0 b st1 r st2.
           new_BufferObject c st = Inr (b0, st0)
         \<and> o_add_all xs (b0, st0) = (b, st1)
         \<and> o_getAll (b, st1) = (r, st2)
         \<and> read_array st2 r = drop k xs
         \<and> (k = 0 \<longrightarrow> read_array st2 r = xs)
         \<and> length (read_array st2 r) = nat c
         \<and> arrays st1 r = None \<and> r \<noteq> o_buffer b
         \<and> (\<forall>ys. view (b, write_array r ys st2) = view (b, st1)
                \<and> getAll (view (b, write_array r ys st2)) = drop k xs)"
proof -
  from assms(1) obtain b0 st0 where new: "new_BufferObject c st = Inr (b0, st0)"
    by (cases "alloc [] st") (simp add: new_BufferObject_def)
  obtain b st1 where adds: "o_add_all xs (b0, st0) = (b, st1)"
    by (cases "o_add_all xs (b0, st0)") auto
  obtain r st2 where snap: "o_getAll (b, st1) = (r, st2)"
    by (cases "o_getAll (b, st1)") auto
  from owns_new [OF assms(3) new] have "owns (o_add_all xs (b0, st0))"
    by (rule owns_add_all)
  with adds have own: "owns (b, st1)" by simp
  from view_new [OF new] have "getAll (add_all xs (view (b0, st0))) = last_n (nat c) xs"
    by (rule round_trip)
  with view_add_all [of xs "(b0, st0)"] adds assms(2)
  have content: "getAll (view (b, st1)) = drop k xs"
    by (simp add: last_n_def)
  from o_getAll_content [OF snap] content have snapshot: "read_array st2 r = drop k xs"
    by simp
  from o_getAll_fresh [OF own snap]
  have fresh: "arrays st1 r = None" "r \<noteq> o_buffer b"
    and same: "\<forall>ys. view (b, write_array r ys st2) = view (b, st1)"
    by simp_all
  from snapshot assms(2) have len: "length (read_array st2 r) = nat c"
    by simp
  from new adds snap snapshot len fresh same content show ?thesis
    by auto
qed

theorem C4_buffer_round_trip_witness:
  "(0::int) < 2 \<and> length [''a'', ''b'', ''c''] = nat 2 + 1 \<and> store_ok empty_store
   \<and> new_BufferObject 2 empty_store
       = Inr (\<lparr>o_buffer = 0, o_maxSize = 2, o_head = 0, o_size = 0\<rparr>,
              \<lparr>arrays = [0 \<mapsto> []], nextRef = 1\<rparr>)
   \<and> read_array (snd (o_getAll (o_add_all [''a'', ''b'', ''c'']
         (\<lparr>o_buffer = 0, o_maxSize = 2, o_head = 0, o_size = 0\<rparr>,
          \<lparr>arrays = [0 \<mapsto> []], nextRef = 1\<rparr>)))) 1 = drop 1 [''a'', ''b'', ''c'']"
proof -
  have h1: "(0::int) < 2" by simp
  have h2: "length [''a'', ''b'', ''c''] = nat 2 + 1" by simp
  have h3: "store_ok empty_store" by (simp add: store_ok_def empty_store_def)
  have new: "new_BufferObject 2 empty_store
       = Inr (\<lparr>o_buffer = 0, o_maxSize = 2, o_head = 0, o_size = 0\<rparr>,
              \<lparr>arrays = [0 \<mapsto> []], nextRef = 1\<rparr>)"
    by (simp add: new_BufferObject_def empty_store_def alloc_def)
  have fst_snap: "fst (o_getAll (o_add_all [''a'', ''b'', ''c'']
         (\<lparr>o_buffer = 0, o_maxSize = 2, o_head = 0, o_size = 0\<rparr>,
          \<lparr>arrays = [0 \<mapsto> []], nextRef = 1\<rparr>))) = 1"
    by (simp add: o_add_all_def o_add_def o_getAll_def alloc_def read_array_def write_array_def)
  from C4_buffer_round_trip [OF h1 h2 h3] new fst_snap h1 h2 h3 show ?thesis
    by (metis Pair_inject old.sum.inject(2) snd_conv fst_conv)
qed

section \<open>Properties of the filler injector\<close>

lemma succ_mod_int:
  "0 < n \<Longrightarrow> (int (j mod n) + 1) mod int n = int (Suc j mod n)"
proof -
  have "int (Suc j mod n) = int (Suc (j mod n) mod n)"
    by (simp add: mod_Suc_eq)
  also have "\<dots> = (int (j mod n) + 1) mod int n"
    by (simp add: zmod_int add.commute)
  finally show ?thesis by simp
qed

lemma getFiller_step:
  assumes "phrases f \<noteq> []" and "rotating f j"
  shows "getFiller f =
     (round_robin (phrases f) (maxFillers f) j,
      if int j < maxFillers f
      then f\<lparr>lastFillerIndex := Num (int (j mod length (phrases f))), fillersUsed := int j + 1\<rparr>
      else f)"
proof (cases "int j < maxFillers f")
  case False
  with assms(2) show ?thesis
    by (simp add: getFiller_def rotating_def round_robin_def)
next
  case True
  let ?n = "length (phrases f)"
  from assms(1) have n: "0 < ?n" by simp
  have idx: "js_rem (js_succ (lastFillerIndex f)) ?n = Num (int (j mod ?n))"
  proof (cases j)
    case 0
    with assms(2) n show ?thesis by (simp add: rotating_def)
  next
    case (Suc j')
    with assms(2) n succ_mod_int [OF n, of j'] show ?thesis
      by (simp add: rotating_def)
  qed
  from n have "js_index (phrases f) (Num (int (j mod ?n))) = Some (phrases f ! (j mod ?n))"
    by simp
  with True assms(2) idx show ?thesis
    by (simp add: getFiller_def rotating_def round_robin_def Let_def)
qed

lemma rotating_step:
  assumes "phrases f \<noteq> []" and "rotating f j" and "int j < maxFillers f"
  shows "rotating (snd (getFiller f)) (Suc j)"
    and "phrases (snd (getFiller f)) = phrases f"
    and "maxFillers (snd (getFiller f)) = maxFillers f"
  using assms getFiller_step [OF assms(1,2)]
  by (simp_all add: rotating_def)


lemma getFillers_exhausted:
  "maxFillers f \<le> fillersUsed f \<Longrightarrow> getFillers m f = (replicate m None, f)"
  by (induction m) (simp_all add: getFiller_def)

lemma round_robin_exhausted:
  "m \<le> int j \<Longrightarrow> map (round_robin ps m) [j ..< j + n] = replicate n None"
  by (induction n) (simp_all add: round_robin_def replicate_append_same)

lemma getFillers_from:
  assumes "phrases f \<noteq> []" and "rotating f j"
  shows "fst (getFillers n f) = map (round_robin (phrases f) (maxFillers f)) [j ..< j + n]"
  using assms
proof (induction n arbitrary: f j)
  case 0
  then show ?case by simp
next
  case (Suc n)
  show ?case
  proof (cases "int j < maxFillers f")
    case True
    obtain r f' where g: "getFiller f = (r, f')" by (cases "getFiller f") auto
    from getFiller_step [OF Suc.prems] g
    have r: "r = round_robin (phrases f) (maxFillers f) j" by simp
    from rotating_step [OF Suc.prems True] g
    have "rotating f' (Suc j)" "phrases f' = phrases f" "maxFillers f' = maxFillers f"
      by simp_all
    with Suc.IH [of f' "Suc j"] Suc.prems(1)
    have "fst (getFillers n f') = map (round_robin (phrases f) (maxFillers f)) [Suc j ..< Suc j + n]"
      by simp
    moreover have "[j ..< j + Suc n] = j # [Suc j ..< Suc j + n]"
      by (simp add: upt_conv_Cons)
    moreover have "fst (getFillers (Suc n) f) = r # fst (getFillers n f')"
      using g by (simp split: prod.splits)
    ultimately show ?thesis
      using r by (simp del: upt_Suc)
  next
    case False
    with Suc.prems(2) have "maxFillers f \<le> fillersUsed f" "maxFillers f \<le> int j"
      by (simp_all add: rotating_def)
    with getFillers_exhausted [of f "Suc n"] round_robin_exhausted [of "maxFillers f" j "phrases f" "Suc n"]
    show ?thesis by simp
  qed
qed

lemma rotating_reset: "rotating (reset_filler f) 0"
  by (simp add: rotating_def reset_filler_def)

lemma fillersUsed_getFillers:
  assumes "phrases f \<noteq> []" and "rotating f j"
  shows "fillersUsed (snd (getFillers n f)) = (if int (j + n) \<le> maxFillers f then int (j + n) else max (int j) (maxFillers f))"
  using assms
proof (induction n arbitrary: f j)
  case 0
  then show ?case by (auto simp: rotating_def)
next
  case (Suc n)
  show ?case
  proof (cases "int j < maxFillers f")
    case True
    obtain r f' where g: "getFiller f = (r, f')" by (cases "getFiller f") auto
    from rotating_step [OF Suc.prems True] g
    have "rotating f' (Suc j)" "phrases f' = phrases f" "maxFillers f' = maxFillers f"
      by simp_all
    with Suc.IH [of f' "Suc j"] Suc.prems(1) g True show ?thesis
      by (auto split: prod.splits)
  next
    case False
    with Suc.prems(2) have "maxFillers f \<le> fillersUsed f" "maxFillers f \<le> int j" "fillersUsed f = int j"
      by (simp_all add: rotating_def)
    with getFillers_exhausted [of f "Suc n"]
    show ?thesis by simp
  qed
qed

lemma getFillers_fields:
  "phrases (snd (getFillers n f)) = phrases f \<and> maxFillers (snd (getFillers n f)) = maxFillers f"
proof (induction n arbitrary: f)
  case 0
  show ?case by simp
next
  case (Suc n)
  obtain r f' where g: "getFiller f = (r, f')" by (cases "getFiller f") auto
  then have "phrases f' = phrases f \<and> maxFillers f' = maxFillers f"
    by (auto simp: getFiller_def Let_def split: if_splits)
  with Suc [of f'] g show ?case by (auto split: prod.splits)
qed

lemma rotating_new: "rotating (new_FillerInjector ps m) 0"
  by (simp add: rotating_def new_FillerInjector_def)

text \<open>
  Claim C5. For a non-empty phrase list \<open>ps\<close> and a maximum \<open>m \<ge> 0\<close>, the first \<open>n\<close>
  calls of \<^verbatim>\<open>getFiller\<close> on a new injector return the phrases in round-robin order
  (call \<open>k\<close> returns phrase \<open>k mod length ps\<close>) for the first \<open>m\<close> calls and null after
  them; the used count is the number of calls, capped at \<open>m\<close>; once \<open>m\<close> calls have been
  made a further call returns null and leaves the injector as it is; and \<^verbatim>\<open>reset\<close> puts
  the injector back into its initial state, used count \<open>0\<close> and last index \<open>-1\<close>, from
  which the cycle starts again.
\<close>

theorem C5_filler_round_robin:
  assumes "ps \<noteq> []" and "0 \<le> m"
  shows "fst (getFillers n (new_FillerInjector ps m)) = map (round_robin ps m) [0 ..< n]
       \<and> getUsedCount (snd (getFillers n (new_FillerInjector ps m))) = min (int n) m
       \<and> (m \<le> int n \<longrightarrow>
            getFiller (snd (getFillers n (new_FillerInjector ps m)))
              = (None, snd (getFillers n (new_FillerInjector ps m))))
       \<and> reset_filler (snd (getFillers n (new_FillerInjector ps m))) = new_FillerInjector ps m
       \<and> fillersUsed (new_FillerInjector ps m) = 0
       \<and> lastFillerIndex (new_FillerInjector ps m) = Num (- 1)"
proof -
  let ?f = "new_FillerInjector ps m"
  let ?g = "snd (getFillers n ?f)"
  have ps: "phrases ?f \<noteq> []" and [simp]: "phrases ?f = ps" "maxFillers ?f = m"
    using assms(1) by (simp_all add: new_FillerInjector_def)
  have results: "fst (getFillers n ?f) = map (round_robin ps m) [0 ..< n]"
    using getFillers_from [OF ps rotating_new, of n] by simp
  have used: "fillersUsed ?g = min (int n) m"
    using fillersUsed_getFillers [OF ps rotating_new, of n] assms(2) by auto
  have fields: "phrases ?g = ps" "maxFillers ?g = m"
    using getFillers_fields [of n ?f] by simp_all
  have exhausted: "m \<le> int n \<longrightarrow> getFiller ?g = (None, ?g)"
    using used fields by (simp add: getFiller_def)
  have "reset_filler ?g = ?f"
    using fields by (simp add: reset_filler_def new_FillerInjector_def)
  with results used exhausted show ?thesis
    by (simp add: getUsedCount_def) (simp add: new_FillerInjector_def)
qed

theorem C5_filler_round_robin_witness:
  "[''a'', ''b'', ''c''] \<noteq> [] \<and> (0::int) \<le> 4
   \<and> fst (getFillers 6 (new_FillerInjector [''a'', ''b'', ''c''] 4))
       = [Some ''a'', Some ''b'', Some ''c'', Some ''a'', None, None]
   \<and> getUsedCount (snd (getFillers 6 (new_FillerInjector [''a'', ''b'', ''c''] 4))) = 4"
proof -
  have h1: "[''a'', ''b'', ''c''] \<noteq> []" by simp
  have h2: "(0::int) \<le> 4" by simp
  have "map (round_robin [''a'', ''b'', ''c''] 4) [0 ..< 6]
          = [Some ''a'', Some ''b'', Some ''c'', Some ''a'', None, None]"
    by (simp add: round_robin_def upt_rec)
  with C5_filler_round_robin [OF h1 h2, of 6] show ?thesis
    by simp
qed

section \<open>Properties of the stall detector\<close>

lemma inv_cases:
  assumes "detector_inv (d, t)"
  shows "(case stallTimer d of None \<Rightarrow> pending t = []
          | Some h \<Rightarrow> filter (\<lambda>p. fst p \<noteq> h) (pending t) = [])"
proof (cases "stallTimer d")
  case None
  with assms have "\<forall>p \<in> set (pending t). False" by (simp add: detector_inv_def)
  then have "pending t = []" by (cases "pending t") auto
  with None show ?thesis by simp
next
  case (Some h)
  with assms show ?thesis by (auto simp: detector_inv_def filter_empty_conv)
qed

lemma inv_clearTimer:
  assumes "detector_inv dt"
  shows "clearTimer dt = (fst dt\<lparr>stallTimer := None\<rparr>, snd dt\<lparr>pending := []\<rparr>)"
proof (cases dt)
  case (Pair d t)
  with assms inv_cases [of d t] show ?thesis
    by (auto simp: clearTimer_def clearTimeout_def split: option.splits)
qed

lemma inv_schedule:
  assumes "detector_inv dt"
  shows "scheduleStallCheck dt =
     (fst dt\<lparr>stallTimer := Some (nextTimer (snd dt))\<rparr>,
      snd dt\<lparr>nextTimer := Suc (nextTimer (snd dt)),
              pending := [(nextTimer (snd dt), thresholdMs (fst dt))]\<rparr>)"
  by (simp add: scheduleStallCheck_def inv_clearTimer [OF assms] setTimeout_def)

lemma detector_inv_schedule: "detector_inv dt \<Longrightarrow> detector_inv (scheduleStallCheck dt)"
  by (simp add: inv_schedule) (simp add: detector_inv_def)

lemma detector_inv_clear: "detector_inv dt \<Longrightarrow> detector_inv (clearTimer dt)"
  by (simp add: inv_clearTimer) (simp add: detector_inv_def)

lemma detector_inv_field: "detector_inv (d, t) \<Longrightarrow> detector_inv (d\<lparr>lastChunkTime := x\<rparr>, t)"
  by (simp add: detector_inv_def)

lemma detector_inv_start: "detector_inv dt \<Longrightarrow> detector_inv (start_detector now dt)"
  by (cases dt) (simp add: start_detector_def detector_inv_schedule detector_inv_field)

lemma detector_inv_notify: "detector_inv dt \<Longrightarrow> detector_inv (notifyChunk now dt)"
  by (cases dt) (simp add: notifyChunk_def detector_inv_schedule detector_inv_clear detector_inv_field)

lemma detector_inv_stop: "detector_inv dt \<Longrightarrow> detector_inv (stop_detector dt)"
  by (simp add: stop_detector_def inv_clearTimer) (simp add: detector_inv_def)

lemma stop_stopped:
  "detector_inv dt \<Longrightarrow> stop_detector dt =
     (fst dt\<lparr>stallTimer := None, lastChunkTime := None\<rparr>, snd dt\<lparr>pending := []\<rparr>)"
  by (simp add: stop_detector_def inv_clearTimer)

lemma detector_inv_fired: "detector_inv (d, t) \<Longrightarrow> detector_inv (d, clearTimeout h t)"
  by (simp add: detector_inv_def clearTimeout_def)

lemma fired_pending:
  "detector_inv (d, t) \<Longrightarrow> h \<in> fst ` set (pending t) \<Longrightarrow> pending (clearTimeout h t) = []"
  using inv_cases [of d t]
  by (auto simp: detector_inv_def clearTimeout_def)

lemma detector_inv_new: "detector_inv (new_StallDetector ms, no_timers)"
  by (simp add: detector_inv_def no_timers_def)

lemma early_timeout:
  assumes "detector_inv (d, t)" and "h \<in> fst ` set (pending t)"
    and "lastChunkTime d = Some lastChunk" and "now - lastChunk < thresholdMs d"
  shows "timeout_fires h onStall now (d, t) w = ((d, t\<lparr>pending := []\<rparr>), w, None)"
  using assms fired_pending [OF assms(1,2)]
  by (simp add: timeout_fires_def stallCheck_def clearTimeout_def)

lemma due_timeout:
  assumes "detector_inv (d, t)" and "h \<in> fst ` set (pending t)"
    and "lastChunkTime d = Some lastChunk" and "now - lastChunk \<ge> thresholdMs d"
    and "onStall (now - lastChunk) w = (w', r)"
  shows "timeout_fires h onStall now (d, t) w =
    (case r of
       Some e \<Rightarrow> ((d, t\<lparr>pending := []\<rparr>), w', Some e)
     | None \<Rightarrow> ((d\<lparr>stallTimer := Some (nextTimer t)\<rparr>,
                  t\<lparr>nextTimer := Suc (nextTimer t), pending := [(nextTimer t, thresholdMs d)]\<rparr>),
                 w', None))"
proof -
  have inv: "detector_inv (d, clearTimeout h t)" using assms(1) by (rule detector_inv_fired)
  from fired_pending [OF assms(1,2)] have "clearTimeout h t = t\<lparr>pending := []\<rparr>"
    by (simp add: clearTimeout_def)
  with assms inv_schedule [OF inv] show ?thesis
    by (simp add: timeout_fires_def stallCheck_def split: option.splits)
qed

lemma detector_inv_timeout:
  assumes "detector_inv dt"
  shows "detector_inv (fst (timeout_fires h onStall now dt w))"
proof (cases dt)
  case (Pair d t)
  with assms have inv: "detector_inv (d, clearTimeout h t)" by (simp add: detector_inv_fired)
  with assms Pair detector_inv_schedule [OF inv] show ?thesis
    by (auto simp: timeout_fires_def stallCheck_def Let_def split: option.splits prod.splits)
qed

lemma timeout_fires_world:
  assumes "timeout_fires h onStall now dt w = (dt', w', r)"
  shows "w' = w \<or> (\<exists>d. w' = fst (onStall d w))"
proof (cases dt)
  case (Pair d t)
  show ?thesis
  proof (cases "h \<in> fst ` set (pending t) \<and> lastChunkTime d \<noteq> None
                \<and> thresholdMs d \<le> now - the (lastChunkTime d)")
    case False
    with assms Pair show ?thesis
      by (auto simp: timeout_fires_def stallCheck_def Let_def split: option.splits if_splits)
  next
    case True
    obtain w1 r1 where cb: "onStall (now - the (lastChunkTime d)) w = (w1, r1)"
      by (cases "onStall (now - the (lastChunkTime d)) w") auto
    with True assms Pair have "w' = w1"
      by (auto simp: timeout_fires_def stallCheck_def Let_def split: option.splits)
    with cb show ?thesis by (metis fst_conv)
  qed
qed

text \<open>
  A detector that holds a last-activity time and has no timeout pending reports nothing
  until \<^verbatim>\<open>notifyChunk\<close> or \<^verbatim>\<open>start\<close> arms a timeout again.
\<close>

lemma rearmed_by_activity:
  "pending (snd (notifyChunk later (d, t\<lparr>pending := []\<rparr>))) = [(nextTimer t, thresholdMs d)]
   \<and> pending (snd (start_detector later (d, t\<lparr>pending := []\<rparr>))) = [(nextTimer t, thresholdMs d)]"
proof -
  have inv: "\<And>x. detector_inv (d\<lparr>lastChunkTime := x\<rparr>, t\<lparr>pending := []\<rparr>)"
    by (simp add: detector_inv_def)
  from inv_schedule [OF detector_inv_clear [OF inv]] inv_schedule [OF inv]
  show ?thesis
    by (simp add: notifyChunk_def start_detector_def clearTimer_def clearTimeout_def
        split: option.splits)
qed

section \<open>Listener exceptions\<close>

text \<open>
  \<^verbatim>\<open>FlowManager.emit\<close> calls every listener, in subscription order, whatever each of
  them does, and returns: what a listener throws goes to the console.
\<close>

lemma emit_loop_calls:
  "calls (emit_loop ls event e) = calls e @ map (\<lambda>l. (fst l, event)) ls
   \<and> event_listeners (emit_loop ls event e) = event_listeners e"
  by (induction ls arbitrary: e) (auto split: prod.splits option.splits)


lemma emit_to_listeners [simp]: "event_listeners (emit_to event e) = event_listeners e"
  by (simp add: emit_to_def emit_loop_calls)

text \<open>
  Claim C6, at a failing input. Two listeners are subscribed to a machine in \<open>IDLE\<close>;
  the first throws. \<^verbatim>\<open>transition(WAITING)\<close> is in the table and sets the state, calls
  the first listener, and the exception of the first listener leaves \<^verbatim>\<open>transition\<close>:
  the second listener is never called.
\<close>

theorem C6_state_listener_exception_propagates:
  "transition WAITING
     \<lparr>currentState = IDLE,
      listeners = [(1, recording_listener 1 (Some (Thrown ''boom''))),
                   (2, recording_listener 2 None)]\<rparr> []
   = (\<lparr>currentState = WAITING,
       listeners = [(1, recording_listener 1 (Some (Thrown ''boom''))),
                    (2, recording_listener 2 None)]\<rparr>,
      [(1, IDLE, WAITING)],
      Inl (Thrown ''boom''))"
  by (simp add: transition_def VALID_TRANSITIONS_def includes_opt_def recording_listener_def)

section \<open>Properties of the manager\<close>

text \<open>
  In a manager that satisfies \<open>fm_inv\<close> the only listener of the state machine is the
  closure that \<^verbatim>\<open>start\<close> subscribes, which never throws, so a transition that is in
  the table returns. Every public method and every timeout keeps \<open>fm_inv\<close>, and the
  constructor establishes it.
\<close>

lemma then_do_simps [simp]:
  "then_do (s, None) f = f s"
  "then_do (s, Some e) f = (s, Some e)"
  by (simp_all add: then_do_def)

lemma fm_transition_valid:
  assumes "listeners (stateMachine m) =
             (case stateChangeUnsubscribe m of None \<Rightarrow> [] | Some i \<Rightarrow> [(i, state_change_listener)])"
    and "(currentState (stateMachine m), to) \<in> spec_table"
  shows "fm_transition to m =
     (m\<lparr>stateMachine := (stateMachine m)\<lparr>currentState := to\<rparr>,
        emitter := (case stateChangeUnsubscribe m of
                      None \<Rightarrow> emitter m
                    | Some i \<Rightarrow> emit_to (StateChange (currentState (stateMachine m)) to) (emitter m))\<rparr>,
      None)"
  using assms
  by (simp add: fm_transition_def transition_def includes_table state_change_listener_def
      split: option.splits)

lemma with_detector_fields [simp]:
  "config (with_detector f m) = config m"
  "stateMachine (with_detector f m) = stateMachine m"
  "fillerInjector (with_detector f m) = fillerInjector m"
  "bufferManager (with_detector f m) = bufferManager m"
  "firstChunkEmitted (with_detector f m) = firstChunkEmitted m"
  "stats (with_detector f m) = stats m"
  "startTime (with_detector f m) = startTime m"
  "Flow.more (with_detector f m) = Flow.more m"
  "(stallDetector (with_detector f m), timers (with_detector f m)) = f (stallDetector m, timers m)"
  by (simp_all add: with_detector_def split: prod.splits)

lemma fm_fields_with_detector [simp]:
  "emitter (with_detector f m) = emitter m"
  "stateChangeUnsubscribe (with_detector f m) = stateChangeUnsubscribe m"
  by (simp_all add: with_detector_def split: prod.splits)

lemma emit_fields [simp]:
  "config (emit ev m) = config m"
  "stateMachine (emit ev m) = stateMachine m"
  "stallDetector (emit ev m) = stallDetector m"
  "timers (emit ev m) = timers m"
  "fillerInjector (emit ev m) = fillerInjector m"
  "bufferManager (emit ev m) = bufferManager m"
  "firstChunkEmitted (emit ev m) = firstChunkEmitted m"
  "stats (emit ev m) = stats m"
  "startTime (emit ev m) = startTime m"
  "stateChangeUnsubscribe (emit ev m) = stateChangeUnsubscribe m"
  "emitter (emit ev m) = emit_to ev (emitter m)"
  by (simp_all add: emit_def)

lemma fm_inv_start:
  assumes "fm_inv m"
  shows "fm_inv (fst (start now m))"
  using assms
  apply (cases "startTime m")
   apply (simp_all add: start_def)
  apply (subst fm_transition_valid)
  apply (auto simp: fm_inv_def reset_def spec_table_def)[2]
  apply (auto simp: fm_inv_def reset_def Let_def onStateChange_def detector_inv_start buffer_inv_clear)
  done



lemma fm_inv_processChunk:
  assumes "fm_inv m"
  shows "fm_inv (fst (processChunk now chunk m))"
proof (cases "startTime m")
  case None
  with assms show ?thesis by (simp add: processChunk_def)
next
  case (Some started)
  show ?thesis
  proof (cases "getState (stateMachine m) = INTERRUPTED")
    case True
    with Some assms show ?thesis by (simp add: processChunk_def)
  next
    case False
    from assms have dinv: "detector_inv (notifyChunk now (stallDetector m, timers m))"
      by (simp add: fm_inv_def detector_inv_notify)
    show ?thesis
    proof (cases "firstChunkEmitted m")
      case True
      with Some False assms dinv show ?thesis
        by (simp add: processChunk_def Let_def getState_def fm_inv_def buffer_inv_add)
    next
      case first: False
      from assms Some False first have st: "currentState (stateMachine m) = WAITING"
        by (auto simp: fm_inv_def getState_def)
      from Some False first assms dinv st show ?thesis
        apply (simp add: processChunk_def Let_def getState_def)
        apply (subst fm_transition_valid)
          apply (simp_all add: fm_inv_def spec_table_def buffer_inv_add)
        done
    qed
  qed
qed

lemma fm_inv_complete:
  assumes "fm_inv m"
  shows "fm_inv (fst (complete now m))"
proof (cases "startTime m")
  case None
  with assms show ?thesis by (simp add: complete_def)
next
  case (Some started)
  from assms have dinv: "detector_inv (stop_detector (stallDetector m, timers m))"
    by (simp add: fm_inv_def detector_inv_stop)
  show ?thesis
  proof (cases "getState (stateMachine m) = INTERRUPTED")
    case True
    with Some assms dinv show ?thesis
      by (auto simp: complete_def Let_def getState_def fm_inv_def unsubscribe_def split: option.splits)
  next
    case False
    with assms Some have st: "(currentState (stateMachine m), IDLE) \<in> spec_table"
      by (auto simp: fm_inv_def getState_def spec_table_def split: if_splits)
    from Some False assms dinv st show ?thesis
      apply (simp add: complete_def Let_def getState_def)
      apply (subst fm_transition_valid)
        apply (simp_all add: fm_inv_def)
      apply (auto simp: unsubscribe_def split: option.splits)
      done
  qed
qed

lemma fm_inv_interrupt:
  assumes "fm_inv m"
  shows "fm_inv (fst (interrupt m))"
proof (cases "getState (stateMachine m) = SPEAKING \<or> getState (stateMachine m) = WAITING")
  case False
  with assms show ?thesis by (simp add: interrupt_def Let_def)
next
  case True
  then have st: "(currentState (stateMachine m), INTERRUPTED) \<in> spec_table"
    by (auto simp: getState_def spec_table_def)
  from assms have dinv: "detector_inv (stop_detector (stallDetector m, timers m))"
    by (simp add: fm_inv_def detector_inv_stop)
  from True assms dinv st show ?thesis
    apply (simp add: interrupt_def Let_def getState_def)
    apply (subst fm_transition_valid)
      apply (simp_all add: fm_inv_def)
    apply (auto simp: buffer_inv_clear split: option.splits)
    done
qed

lemma handleStall_frame:
  "stateMachine (handleStall d m) = stateMachine m"
  "stallDetector (handleStall d m) = stallDetector m"
  "timers (handleStall d m) = timers m"
  "bufferManager (handleStall d m) = bufferManager m"
  "firstChunkEmitted (handleStall d m) = firstChunkEmitted m"
  "startTime (handleStall d m) = startTime m"
  "stateChangeUnsubscribe (handleStall d m) = stateChangeUnsubscribe m"
  "config (handleStall d m) = config m"
  "chunksProcessed (stats (handleStall d m)) = chunksProcessed (stats m)"
  "firstChunkTime (stats (handleStall d m)) = firstChunkTime (stats m)"
  "event_listeners (emitter (handleStall d m)) = event_listeners (emitter m)"
  by (simp_all add: handleStall_def Let_def split: prod.splits option.splits)

lemma fm_inv_handleStall: "fm_inv m \<Longrightarrow> fm_inv (handleStall d m)"
  by (auto simp: fm_inv_def handleStall_frame split: option.splits)

lemma fm_inv_timer_fires:
  assumes "fm_inv m"
  shows "fm_inv (timer_fires h now m)"
proof -
  let ?cb = "\<lambda>elapsed w. (handleStall elapsed w, None)"
  obtain dt m' r where f: "timeout_fires h ?cb now (stallDetector m, timers m) m = (dt, m', r)"
    by (cases "timeout_fires h ?cb now (stallDetector m, timers m) m") auto
  from assms have "detector_inv (stallDetector m, timers m)" by (simp add: fm_inv_def)
  from detector_inv_timeout [OF this, of h ?cb now m] f have dinv: "detector_inv dt" by simp
  from f have "m' = m \<or> (\<exists>d. m' = handleStall d m)"
    by (auto simp: timeout_fires_def stallCheck_def Let_def split: if_splits option.splits)
  with assms have "fm_inv m'" by (auto simp: fm_inv_handleStall)
  with dinv f show ?thesis
    by (cases dt) (auto simp: timer_fires_def fm_inv_def split: option.splits)
qed

lemma fm_inv_on: "fm_inv m \<Longrightarrow> fm_inv (on l m)"
  by (auto simp: fm_inv_def on_def split: option.splits)

lemma fm_inv_off: "fm_inv m \<Longrightarrow> fm_inv (off i m)"
  by (auto simp: fm_inv_def off_def split: option.splits)

lemma fm_inv_perform: "fm_inv m \<Longrightarrow> fm_inv (fst (perform c m))"
  by (cases c)
     (simp_all add: fm_inv_start fm_inv_processChunk fm_inv_complete fm_inv_interrupt
        fm_inv_timer_fires fm_inv_on fm_inv_off)

lemma fm_inv_run: "fm_inv m \<Longrightarrow> fm_inv (run cs m)"
  by (induction cs arbitrary: m) (simp_all add: run_def fm_inv_perform)

lemma fm_inv_new: "new_FlowManager cfg u = Inr m \<Longrightarrow> fm_inv m"
  by (auto simp: new_FlowManager_def Let_def fm_inv_def new_ConversationStateMachine_def
      detector_inv_new dest: buffer_inv_new split: sum.splits)


text \<open>
  After the first chunk of a session, no call but \<^verbatim>\<open>start\<close> injects a filler or
  delivers a filler-injected event.
\<close>

lemma no_new_filler_iff:
  "no_new_filler e e' \<longleftrightarrow> (\<exists>new. calls e' = calls e @ new \<and> (\<forall>c \<in> set new. \<not> is_filler c))"
proof
  assume "no_new_filler e e'"
  then have "calls e' = calls e @ drop (length (calls e)) (calls e')"
    and "\<forall>c \<in> set (drop (length (calls e)) (calls e')). \<not> is_filler c"
    by (auto simp: no_new_filler_def list_ex_iff) (metis append_take_drop_id)
  then show "\<exists>new. calls e' = calls e @ new \<and> (\<forall>c \<in> set new. \<not> is_filler c)" by blast
next
  assume "\<exists>new. calls e' = calls e @ new \<and> (\<forall>c \<in> set new. \<not> is_filler c)"
  then show "no_new_filler e e'" by (auto simp: no_new_filler_def list_ex_iff)
qed

lemma no_new_filler_refl [simp]: "no_new_filler e e"
  by (simp add: no_new_filler_iff)

lemma no_new_filler_same_calls: "calls e' = calls e'' \<Longrightarrow> no_new_filler e e' \<Longrightarrow> no_new_filler e e''"
  by (simp add: no_new_filler_def)







text \<open>What \<^verbatim>\<open>interrupt\<close>, \<^verbatim>\<open>start\<close> and \<^verbatim>\<open>complete\<close> do in such a manager.\<close>

lemma interrupt_noop:
  "getState_flow m \<noteq> SPEAKING \<Longrightarrow> getState_flow m \<noteq> WAITING \<Longrightarrow> interrupt m = (m, None)"
  by (simp add: interrupt_def getState_flow_def Let_def)

lemma interrupt_effect:
  assumes "fm_inv m" and "getState_flow m = SPEAKING \<or> getState_flow m = WAITING"
  shows "snd (interrupt m) = None"
    and "getState_flow (fst (interrupt m)) = INTERRUPTED"
    and "stopped (fst (interrupt m))"
    and "fillerInjector (fst (interrupt m)) = reset_filler (fillerInjector m)"
    and "bufferManager (fst (interrupt m)) = clear (bufferManager m)"
    and "startTime (fst (interrupt m)) = startTime m"
    and "startTime m \<noteq> None"
proof -
  from assms(2) have st: "(currentState (stateMachine m), INTERRUPTED) \<in> spec_table"
    by (auto simp: getState_flow_def getState_def spec_table_def)
  from assms have dinv: "detector_inv (stallDetector m, timers m)" by (simp add: fm_inv_def)
  have eq: "interrupt m =
     (emit Interrupted
        ((with_detector stop_detector
           (m\<lparr>stateMachine := (stateMachine m)\<lparr>currentState := INTERRUPTED\<rparr>,
              emitter := (case stateChangeUnsubscribe m of
                      None \<Rightarrow> emitter m
                    | Some i \<Rightarrow> emit_to (StateChange (currentState (stateMachine m)) INTERRUPTED) (emitter m))\<rparr>))
         \<lparr>fillerInjector := reset_filler (fillerInjector m),
           bufferManager := clear (bufferManager m)\<rparr>), None)"
    using assms st
    apply (simp add: interrupt_def Let_def getState_flow_def)
    apply (subst fm_transition_valid, simp add: fm_inv_def, simp)+
    apply simp
    done
  show "snd (interrupt m) = None" by (simp add: eq)
  show "getState_flow (fst (interrupt m)) = INTERRUPTED"
    by (simp add: eq getState_flow_def getState_def)
  show "stopped (fst (interrupt m))"
    using stop_stopped [OF dinv]
    by (simp add: eq stopped_def with_detector_def)
  show "fillerInjector (fst (interrupt m)) = reset_filler (fillerInjector m)" by (simp add: eq)
  show "bufferManager (fst (interrupt m)) = clear (bufferManager m)" by (simp add: eq)
  show "startTime (fst (interrupt m)) = startTime m" by (simp add: eq)
  from assms show "startTime m \<noteq> None"
    by (auto simp: fm_inv_def getState_flow_def getState_def split: option.splits)
qed

lemma interrupted_processChunk:
  "startTime m \<noteq> None \<Longrightarrow> getState_flow m = INTERRUPTED \<Longrightarrow> processChunk now chunk m = (m, None)"
  by (auto simp: processChunk_def getState_flow_def split: option.splits)

lemma interrupted_complete:
  assumes "startTime m \<noteq> None" and "getState_flow m = INTERRUPTED"
  shows "snd (complete now m) = None \<and> getState_flow (fst (complete now m)) = INTERRUPTED
       \<and> startTime (fst (complete now m)) = None"
  using assms
  by (auto simp: complete_def getState_flow_def Let_def getState_def unsubscribe_def
      split: option.splits)

lemma start_refused:
  "startTime m \<noteq> None \<Longrightarrow>
     start now m = (m, Some already_started)"
  by (simp add: start_def already_started_def)

lemma start_accepted:
  assumes "fm_inv m" and "startTime m = None"
  shows "snd (start now m) = None \<and> startTime (fst (start now m)) = Some now
       \<and> getState_flow (fst (start now m)) = WAITING"
proof -
  from assms have st: "(currentState (stateMachine m), WAITING) \<in> spec_table"
    by (auto simp: fm_inv_def spec_table_def)
  from assms st show ?thesis
    apply (simp add: start_def)
    apply (subst fm_transition_valid, simp add: fm_inv_def reset_def, simp add: reset_def)+
    apply (simp add: Let_def getState_flow_def getState_def onStateChange_def reset_def)
    done
qed

lemma complete_accepted:
  assumes "fm_inv m" and "startTime m \<noteq> None"
  shows "snd (complete now m) = None \<and> startTime (fst (complete now m)) = None"
proof (cases "getState (stateMachine m) = INTERRUPTED")
  case True
  with assms(2) show ?thesis
    by (auto simp: complete_def Let_def split: option.splits)
next
  case False
  with assms have st: "(currentState (stateMachine m), IDLE) \<in> spec_table"
    by (auto simp: fm_inv_def getState_def spec_table_def split: if_splits option.splits)
  from assms False st show ?thesis
    apply (clarsimp simp add: complete_def Let_def getState_def)
    apply (subst fm_transition_valid, simp add: fm_inv_def, simp)+
    apply (auto split: option.splits)
    done
qed

lemma startTime_kept:
  assumes "fm_inv m" and "startTime m \<noteq> None" and "\<not> is_Complete c"
  shows "startTime (fst (perform c m)) = startTime m"
proof (cases c)
  case (Start now)
  with assms show ?thesis by (simp add: start_refused)
next
  case (ProcessChunk now chunk)
  obtain started where s: "startTime m = Some started" using assms(2) by auto
  show ?thesis
  proof (cases "getState (stateMachine m) = INTERRUPTED \<or> firstChunkEmitted m")
    case True
    with s ProcessChunk show ?thesis
      by (auto simp: processChunk_def Let_def)
  next
    case False
    with assms s have st: "(currentState (stateMachine m), SPEAKING) \<in> spec_table"
      by (auto simp: fm_inv_def getState_def spec_table_def)
    from False s st assms(1) ProcessChunk show ?thesis
      apply (simp add: processChunk_def Let_def)
      apply (subst fm_transition_valid, simp add: fm_inv_def, simp)+
      apply simp
      done
  qed
next
  case (Complete now)
  with assms show ?thesis by simp
next
  case Interrupt
  show ?thesis
  proof (cases "getState_flow m = SPEAKING \<or> getState_flow m = WAITING")
    case True
    from interrupt_effect(6) [OF assms(1) True] Interrupt show ?thesis by simp
  next
    case False
    with Interrupt show ?thesis by (simp add: interrupt_noop)
  qed
next
  case (TimerFires h now)
  let ?cb = "\<lambda>elapsed w. (handleStall elapsed w, None)"
  obtain dt m' r where f: "timeout_fires h ?cb now (stallDetector m, timers m) m = (dt, m', r)"
    by (cases "timeout_fires h ?cb now (stallDetector m, timers m) m") auto
  then have "m' = m \<or> (\<exists>d. m' = handleStall d m)"
    by (auto simp: timeout_fires_def stallCheck_def Let_def split: if_splits option.splits)
  with f TimerFires show ?thesis
    by (auto simp: timer_fires_def handleStall_frame)
next
  case (On i l)
  then show ?thesis by (simp add: on_def)
next
  case (Off i)
  then show ?thesis by (simp add: off_def)
qed



section \<open>Properties of the stream wrapper\<close>

text \<open>
  The controller subscribes no listener to its state machine. The callbacks of the
  configuration may throw; what they do to the user's world does not reach the fields
  below.
\<close>

lemma callback_frame [simp]:
  "config (fst (callback f c)) = config c"
  "stateMachine (fst (callback f c)) = stateMachine c"
  "stallDetector (fst (callback f c)) = stallDetector c"
  "timers (fst (callback f c)) = timers c"
  "fillerInjector (fst (callback f c)) = fillerInjector c"
  "bufferManager (fst (callback f c)) = bufferManager c"
  "firstChunkEmitted (fst (callback f c)) = firstChunkEmitted c"
  "stats (fst (callback f c)) = stats c"
  "startTime (fst (callback f c)) = startTime c"
  by (simp_all add: callback_def split: prod.splits)

lemma fc_transition_frame [simp]:
  "config (fst (fc_transition to c)) = config c"
  "stallDetector (fst (fc_transition to c)) = stallDetector c"
  "timers (fst (fc_transition to c)) = timers c"
  "fillerInjector (fst (fc_transition to c)) = fillerInjector c"
  "bufferManager (fst (fc_transition to c)) = bufferManager c"
  "firstChunkEmitted (fst (fc_transition to c)) = firstChunkEmitted c"
  "stats (fst (fc_transition to c)) = stats c"
  "startTime (fst (fc_transition to c)) = startTime c"
  "listeners (stateMachine (fst (fc_transition to c))) = listeners (stateMachine c)"
  by (simp_all add: fc_transition_def transition_def Let_def split: prod.splits option.splits)

lemma fc_transition_valid:
  assumes "listeners (stateMachine c) = []" and "(currentState (stateMachine c), to) \<in> spec_table"
  shows "fc_transition to c = (c\<lparr>stateMachine := (stateMachine c)\<lparr>currentState := to\<rparr>\<rparr>, None)"
  using assms by (simp add: fc_transition_def transition_def includes_table)

lemma then_do_fst:
  "fst (then_do r f) = (case snd r of None \<Rightarrow> fst (f (fst r)) | Some e \<Rightarrow> fst r)"
  by (cases r) (simp add: then_do_def split: option.splits)

lemma handleStall_fc_frame:
  "stateMachine (fst (handleStall_fc d c)) = stateMachine c"
  "stallDetector (fst (handleStall_fc d c)) = stallDetector c"
  "timers (fst (handleStall_fc d c)) = timers c"
  "bufferManager (fst (handleStall_fc d c)) = bufferManager c"
  "firstChunkEmitted (fst (handleStall_fc d c)) = firstChunkEmitted c"
  "startTime (fst (handleStall_fc d c)) = startTime c"
  "config (fst (handleStall_fc d c)) = config c"
  "chunksProcessed (stats (fst (handleStall_fc d c))) = chunksProcessed (stats c)"
  "firstChunkTime (stats (fst (handleStall_fc d c))) = firstChunkTime (stats c)"
  by (auto simp: handleStall_fc_def then_do_fst Let_def split: prod.splits option.splits)



lemma timer_fires_fc_cases:
  obtains dt where "timer_fires_fc h now c = c\<lparr>stallDetector := fst dt, timers := snd dt\<rparr>"
      and "detector_inv (stallDetector c, timers c) \<longrightarrow> detector_inv dt"
  | dt d where
      "timer_fires_fc h now c = (fst (handleStall_fc d c))\<lparr>stallDetector := fst dt, timers := snd dt\<rparr>"
      and "detector_inv (stallDetector c, timers c) \<longrightarrow> detector_inv dt"
proof -
  obtain dt c' r where f: "timeout_fires h handleStall_fc now (stallDetector c, timers c) c = (dt, c', r)"
    by (cases "timeout_fires h handleStall_fc now (stallDetector c, timers c) c") auto
  from detector_inv_timeout [of "(stallDetector c, timers c)" h handleStall_fc now c] f
  have dinv: "detector_inv (stallDetector c, timers c) \<longrightarrow> detector_inv dt" by simp
  from timeout_fires_world [OF f] have "c' = c \<or> (\<exists>d. c' = fst (handleStall_fc d c))" .
  with f dinv that show thesis
    by (auto simp: timer_fires_fc_def)
qed

lemma wrap_finally_frame [simp]:
  "stateMachine (wrap_finally now c) = stateMachine c"
  "bufferManager (wrap_finally now c) = bufferManager c"
  "fillerInjector (wrap_finally now c) = fillerInjector c"
  "firstChunkEmitted (wrap_finally now c) = firstChunkEmitted c"
  "fillersInjected (stats (wrap_finally now c)) = fillersInjected (stats c)"
  "(stallDetector (wrap_finally now c), timers (wrap_finally now c))
     = stop_detector (stallDetector c, timers c)"
  by (simp_all add: wrap_finally_def Let_def)

lemma wrap_after_loop_frame:
  "bufferManager (fst (wrap_after_loop now c)) = bufferManager c"
  "firstChunkEmitted (fst (wrap_after_loop now c)) = firstChunkEmitted c"
  "fillersInjected (stats (fst (wrap_after_loop now c))) = fillersInjected (stats c)"
  "listeners (stateMachine (fst (wrap_after_loop now c))) = listeners (stateMachine c)"
  "(stallDetector (fst (wrap_after_loop now c)), timers (fst (wrap_after_loop now c)))
     = stop_detector (stallDetector c, timers c)"
  "\<forall>x. snd (wrap_after_loop now c) \<noteq> Yielded x"
  using fc_transition_frame [of IDLE c]
  by (auto simp: wrap_after_loop_def wrap_caught_def split: prod.splits option.splits
      simp del: fc_transition_frame)




lemma wrap_steps_snoc: "wrap_steps (es @ [e]) it = wrap_step e (wrap_steps es it)"
  by (simp add: wrap_steps_def)



lemma fc_inv_new: "new_FlowController cfg u = Inr c \<Longrightarrow> fc_inv c"
  by (auto simp: new_FlowController_def Let_def fc_inv_def new_ConversationStateMachine_def
      detector_inv_new dest: buffer_inv_new split: sum.splits)

lemma new_FlowController_succeeds: "\<exists>c. new_FlowController cfg u = Inr c"
  by (simp add: new_FlowController_def Let_def new_BufferManager_def)

lemma fc_inv_wrap_finally: "fc_inv c \<Longrightarrow> fc_inv (wrap_finally now c)"
  using wrap_finally_frame(6) [of now c]
  by (simp add: fc_inv_def detector_inv_stop del: wrap_finally_frame(6))

lemma fc_inv_wrap_after_loop: "fc_inv c \<Longrightarrow> fc_inv (fst (wrap_after_loop now c))"
  using wrap_after_loop_frame(5) [of now c]
  by (simp add: fc_inv_def detector_inv_stop wrap_after_loop_frame(1,4))


lemma fc_inv_resumption:
  "fc_inv (fst r) \<Longrightarrow>
     fc_inv (fst (case r of (c7, Some e) \<Rightarrow> wrap_caught now e c7
                          | (c7, None) \<Rightarrow> (c7, Yielded chunk)))"
  by (cases r; cases "snd r") (auto simp: wrap_caught_def fc_inv_wrap_finally)

lemma fc_inv_wrap_chunk:
  assumes "fc_inv c"
  shows "fc_inv (fst (wrap_chunk now chunk c))"
proof (cases "getState (stateMachine c) = INTERRUPTED")
  case True
  with assms show ?thesis by (simp add: wrap_chunk_def fc_inv_wrap_after_loop)
next
  case False
  with assms show ?thesis
    apply (simp add: wrap_chunk_def Let_def)
    apply (intro conjI impI)
     apply (rule fc_inv_resumption)
     apply (auto simp: then_do_fst fc_inv_def detector_inv_notify buffer_inv_add split: option.splits)
    done
qed

lemma fc_inv_interrupt: "fc_inv c \<Longrightarrow> fc_inv (fst (interrupt_fc c))"
  by (auto simp: interrupt_fc_def Let_def then_do_fst fc_inv_def detector_inv_stop buffer_inv_clear
      split: option.splits)

lemma fc_inv_timer: 
  assumes "fc_inv c"
  shows "fc_inv (timer_fires_fc h now c)"
  using assms
  by (cases rule: timer_fires_fc_cases [of h now c])
     (auto simp: fc_inv_def handleStall_fc_frame)

lemma fc_inv_wrap_start:
  assumes "fc_inv c"
  shows "fc_inv (ctl (wrap_start now c))"
proof -
  have "fc_inv (fst (wrap_begin now c))"
    using assms
    by (auto simp: wrap_begin_def then_do_fst fc_inv_def reset_def buffer_inv_clear
        detector_inv_start split: option.splits)
  then show ?thesis
    by (cases "wrap_begin now c") (auto simp: wrap_start_def split: option.splits)
qed

lemma ctl_resumed [simp]: "ctl (resumed it r) = fst r"
  by (cases r) (simp add: resumed_def split: resumption.splits)

lemma fc_inv_step: "fc_inv (ctl it) \<Longrightarrow> fc_inv (ctl (wrap_step e it))"
  by (cases e)
     (simp_all add: fc_inv_wrap_start fc_inv_wrap_chunk fc_inv_wrap_after_loop fc_inv_interrupt
        fc_inv_timer wrap_caught_def fc_inv_wrap_finally)

lemma fc_inv_steps: "fc_inv (ctl it) \<Longrightarrow> fc_inv (ctl (wrap_steps es it))"
  by (induction es rule: rev_induct) (simp_all add: wrap_steps_def fc_inv_step)

lemma interrupt_fc_noop:
  "getState_flow c \<noteq> SPEAKING \<Longrightarrow> getState_flow c \<noteq> WAITING \<Longrightarrow> interrupt_fc c = (c, None)"
  by (simp add: interrupt_fc_def getState_flow_def Let_def)

lemma interrupt_fc_effect:
  assumes "fc_inv c" and "getState_flow c = SPEAKING \<or> getState_flow c = WAITING"
  shows "snd (interrupt_fc c) = None"
    and "getState_flow (fst (interrupt_fc c)) = INTERRUPTED"
    and "stopped (fst (interrupt_fc c))"
    and "fillerInjector (fst (interrupt_fc c)) = reset_filler (fillerInjector c)"
    and "bufferManager (fst (interrupt_fc c)) = clear (bufferManager c)"
proof -
  from assms(2) have st: "(currentState (stateMachine c), INTERRUPTED) \<in> spec_table"
    by (auto simp: getState_flow_def getState_def spec_table_def)
  from assms have dinv: "detector_inv (stallDetector c, timers c)"
    and ls: "listeners (stateMachine c) = []"
    by (simp_all add: fc_inv_def)
  have eq: "interrupt_fc c =
     ((with_detector stop_detector
           (c\<lparr>stateMachine := (stateMachine c)\<lparr>currentState := INTERRUPTED\<rparr>\<rparr>))
         \<lparr>fillerInjector := reset_filler (fillerInjector c),
           bufferManager := clear (bufferManager c)\<rparr>, None)"
    using assms(2) by (simp add: interrupt_fc_def Let_def getState_flow_def fc_transition_valid [OF ls st])
  show "snd (interrupt_fc c) = None" by (simp add: eq)
  show "getState_flow (fst (interrupt_fc c)) = INTERRUPTED"
    by (simp add: eq getState_flow_def getState_def)
  show "stopped (fst (interrupt_fc c))"
    using stop_stopped [OF dinv]
    by (simp add: eq stopped_def with_detector_def)
  show "fillerInjector (fst (interrupt_fc c)) = reset_filler (fillerInjector c)" by (simp add: eq)
  show "bufferManager (fst (interrupt_fc c)) = clear (bufferManager c)" by (simp add: eq)
qed

text \<open>Once the controller is interrupted, no step but a new \<open>Begin\<close> yields a chunk.\<close>

lemma interrupted_step:
  assumes "getState_flow (ctl it) = INTERRUPTED" and "\<not> is_Begin e"
  shows "getState_flow (ctl (wrap_step e it)) = INTERRUPTED
       \<and> yielded (wrap_step e it) = yielded it
       \<and> (running (wrap_step e it) \<longrightarrow> running it)
       \<and> bufferManager (ctl (wrap_step e it)) = bufferManager (ctl it)"
proof (cases e)
  case (Begin now)
  with assms show ?thesis by simp
next
  case (Input now chunk)
  with assms show ?thesis
    by (simp add: wrap_chunk_def wrap_after_loop_def getState_flow_def resumed_def)
next
  case (InputEnd now)
  with assms show ?thesis
    by (simp add: wrap_after_loop_def getState_flow_def resumed_def)
next
  case (InputError now err)
  with assms show ?thesis
    by (simp add: wrap_caught_def getState_flow_def resumed_def)
next
  case CallInterrupt
  with assms show ?thesis by (simp add: interrupt_fc_noop)
next
  case (Timeout h now)
  with assms show ?thesis
    by (cases rule: timer_fires_fc_cases [of h now "ctl it"])
       (auto simp: getState_flow_def handleStall_fc_frame)
qed

lemma interrupted_steps:
  assumes "getState_flow (ctl it) = INTERRUPTED" and "\<forall>e \<in> set es. \<not> is_Begin e"
  shows "getState_flow (ctl (wrap_steps es it)) = INTERRUPTED
       \<and> yielded (wrap_steps es it) = yielded it
       \<and> (running (wrap_steps es it) \<longrightarrow> running it)
       \<and> bufferManager (ctl (wrap_steps es it)) = bufferManager (ctl it)"
  using assms(2)
proof (induction es rule: rev_induct)
  case Nil
  from assms(1) show ?case by (simp add: wrap_steps_def)
next
  case (snoc e es)
  then have ih: "getState_flow (ctl (wrap_steps es it)) = INTERRUPTED"
      "yielded (wrap_steps es it) = yielded it"
      "running (wrap_steps es it) \<longrightarrow> running it"
      "bufferManager (ctl (wrap_steps es it)) = bufferManager (ctl it)"
    and e: "\<not> is_Begin e"
    by simp_all
  from interrupted_step [OF ih(1) e] ih show ?case
    by (simp add: wrap_steps_snoc)
qed

lemma interrupted_pull:
  assumes "getState_flow (ctl it) = INTERRUPTED"
  shows "\<not> running (wrap_step (Input now chunk) it)"
  using assms
  by (simp add: wrap_chunk_def wrap_after_loop_def getState_flow_def resumed_def)

section \<open>Evaluating the examples\<close>

lemmas constructor_defs =
  new_FlowManager_def no_options_def nullish_def DEFAULT_STALL_THRESHOLD_MS_def
  DEFAULT_FILLER_PHRASES_def DEFAULT_MAX_FILLERS_PER_RESPONSE_def new_BufferManager_def
  new_ConversationStateMachine_def new_StallDetector_def no_timers_def new_FillerInjector_def
  fresh_manager_def new_FlowController_def no_options_c_def fresh_controller_def

lemmas method_defs =
  run_def start_def processChunk_def complete_def interrupt_def handleStall_def timer_fires_def
  reset_def with_detector_def fm_transition_def transition_def VALID_TRANSITIONS_def
  includes_opt_def start_detector_def stop_detector_def notifyChunk_def scheduleStallCheck_def
  clearTimer_def setTimeout_def clearTimeout_def onStateChange_def unsubscribe_def
  fresh_listener_def emit_def emit_to_def state_change_listener_def reset_filler_def
  clear_def add_def getAll_def getFiller_def timeout_fires_def stallCheck_def
  initial_stats_def getState_def getState_flow_def getStats_def getBufferedChunks_def Let_def
  wrap_steps_def wrap_start_def wrap_begin_def wrap_chunk_def wrap_after_loop_def
  wrap_finally_def wrap_caught_def resumed_def idle_def fc_transition_def callback_def
  interrupt_fc_def handleStall_fc_def timer_fires_fc_def

lemma new_fresh_manager: "new_FlowManager no_options () = Inr fresh_manager"
  by (simp add: constructor_defs)

lemma new_fresh_controller: "new_FlowController no_options_c () = Inr fresh_controller"
  by (simp add: constructor_defs)

section \<open>Claims about the orchestrators\<close>



text \<open>
  Claim C3. In a manager reached from the constructor by any calls, \<^verbatim>\<open>interrupt\<close>
  changes nothing unless the state is \<open>SPEAKING\<close> or \<open>WAITING\<close>. In those two states
  it returns normally, and afterwards the state is \<open>INTERRUPTED\<close>, the detector is
  stopped, the injector is reset (its used count is \<open>0\<close> and its last index \<open>-1\<close>), the
  buffer is cleared and \<^verbatim>\<open>getBufferedChunks\<close> returns the empty list; a \<^verbatim>\<open>processChunk\<close> that follows returns without any effect,
  and a \<^verbatim>\<open>complete\<close> that follows returns and leaves the state \<open>INTERRUPTED\<close>. The
  same holds of a controller reached from its constructor by any iteration steps; there,
  after the interrupt, no step of the iteration yields a further chunk, the state stays
  \<open>INTERRUPTED\<close>, and the next pull of a chunk ends the generator.
\<close>

theorem C3_interrupt:
  fixes m0 :: "'u FlowManager" and c0 :: "'v FlowController"
  assumes "new_FlowManager cfg u = Inr m0" and "new_FlowController cfg' u' = Inr c0"
  shows "(\<forall>cs.
            (getState_flow (run cs m0) \<noteq> SPEAKING \<and> getState_flow (run cs m0) \<noteq> WAITING \<longrightarrow>
               interrupt (run cs m0) = (run cs m0, None))
          \<and> (getState_flow (run cs m0) = SPEAKING \<or> getState_flow (run cs m0) = WAITING \<longrightarrow>
               snd (interrupt (run cs m0)) = None
             \<and> getState_flow (fst (interrupt (run cs m0))) = INTERRUPTED
             \<and> stopped (fst (interrupt (run cs m0)))
             \<and> fillerInjector (fst (interrupt (run cs m0)))
                 = reset_filler (fillerInjector (run cs m0))
             \<and> fillersUsed (fillerInjector (fst (interrupt (run cs m0)))) = 0
             \<and> lastFillerIndex (fillerInjector (fst (interrupt (run cs m0)))) = Num (- 1)
             \<and> bufferManager (fst (interrupt (run cs m0))) = clear (bufferManager (run cs m0))
             \<and> getBufferedChunks (fst (interrupt (run cs m0))) = []
             \<and> (\<forall>now chunk.
                   processChunk now chunk (fst (interrupt (run cs m0)))
                     = (fst (interrupt (run cs m0)), None))
             \<and> (\<forall>now.
                   snd (complete now (fst (interrupt (run cs m0)))) = None
                 \<and> getState_flow (fst (complete now (fst (interrupt (run cs m0)))))
                     = INTERRUPTED)))
       \<and> (\<forall>es.
            (getState_flow (ctl (wrap_steps es (idle c0))) \<noteq> SPEAKING
               \<and> getState_flow (ctl (wrap_steps es (idle c0))) \<noteq> WAITING \<longrightarrow>
               interrupt_fc (ctl (wrap_steps es (idle c0)))
                 = (ctl (wrap_steps es (idle c0)), None))
          \<and> (getState_flow (ctl (wrap_steps es (idle c0))) = SPEAKING
               \<or> getState_flow (ctl (wrap_steps es (idle c0))) = WAITING \<longrightarrow>
               snd (interrupt_fc (ctl (wrap_steps es (idle c0)))) = None
             \<and> getState_flow (ctl (wrap_steps (es @ [CallInterrupt]) (idle c0))) = INTERRUPTED
             \<and> stopped (ctl (wrap_steps (es @ [CallInterrupt]) (idle c0)))
             \<and> fillerInjector (ctl (wrap_steps (es @ [CallInterrupt]) (idle c0)))
                 = reset_filler (fillerInjector (ctl (wrap_steps es (idle c0))))
             \<and> fillersUsed (fillerInjector (ctl (wrap_steps (es @ [CallInterrupt]) (idle c0)))) = 0
             \<and> lastFillerIndex (fillerInjector (ctl (wrap_steps (es @ [CallInterrupt]) (idle c0))))
                 = Num (- 1)
             \<and> getBufferedChunks (ctl (wrap_steps (es @ [CallInterrupt]) (idle c0))) = []
             \<and> (\<forall>es'. (\<forall>e \<in> set es'. \<not> is_Begin e) \<longrightarrow>
                   yielded (wrap_steps es' (wrap_steps (es @ [CallInterrupt]) (idle c0)))
                     = yielded (wrap_steps es (idle c0))
                 \<and> getState_flow (ctl (wrap_steps es' (wrap_steps (es @ [CallInterrupt]) (idle c0))))
                     = INTERRUPTED
                 \<and> getBufferedChunks
                       (ctl (wrap_steps es' (wrap_steps (es @ [CallInterrupt]) (idle c0)))) = [])
             \<and> (\<forall>now chunk.
                   \<not> running (wrap_step (Input now chunk)
                                 (wrap_steps (es @ [CallInterrupt]) (idle c0))))))"
proof (intro conjI allI)
  fix cs :: "'u call list"
  let ?m = "run cs m0"
  have inv: "fm_inv ?m" using fm_inv_new [OF assms(1)] by (rule fm_inv_run)
  show "getState_flow ?m \<noteq> SPEAKING \<and> getState_flow ?m \<noteq> WAITING \<longrightarrow>
          interrupt ?m = (?m, None)"
    by (simp add: interrupt_noop)
  show "getState_flow ?m = SPEAKING \<or> getState_flow ?m = WAITING \<longrightarrow>
          snd (interrupt ?m) = None
        \<and> getState_flow (fst (interrupt ?m)) = INTERRUPTED
        \<and> stopped (fst (interrupt ?m))
        \<and> fillerInjector (fst (interrupt ?m)) = reset_filler (fillerInjector ?m)
        \<and> fillersUsed (fillerInjector (fst (interrupt ?m))) = 0
        \<and> lastFillerIndex (fillerInjector (fst (interrupt ?m))) = Num (- 1)
        \<and> bufferManager (fst (interrupt ?m)) = clear (bufferManager ?m)
        \<and> getBufferedChunks (fst (interrupt ?m)) = []
        \<and> (\<forall>now chunk. processChunk now chunk (fst (interrupt ?m)) = (fst (interrupt ?m), None))
        \<and> (\<forall>now. snd (complete now (fst (interrupt ?m))) = None
                 \<and> getState_flow (fst (complete now (fst (interrupt ?m)))) = INTERRUPTED)"
  proof
    assume st: "getState_flow ?m = SPEAKING \<or> getState_flow ?m = WAITING"
    note e = interrupt_effect [OF inv st]
    from inv have "buffer_inv (bufferManager ?m)" by (simp add: fm_inv_def)
    then have empty: "getBufferedChunks (fst (interrupt ?m)) = []"
      by (simp add: getBufferedChunks_def e(5) getAll_clear)
    from e(6,7) have started: "startTime (fst (interrupt ?m)) \<noteq> None" by simp
    from e(4) have zeroed: "fillersUsed (fillerInjector (fst (interrupt ?m))) = 0"
      "lastFillerIndex (fillerInjector (fst (interrupt ?m))) = Num (- 1)"
      by (simp_all add: reset_filler_def)
    from e empty zeroed interrupted_processChunk [OF started e(2)] interrupted_complete [OF started e(2)]
    show "snd (interrupt ?m) = None
        \<and> getState_flow (fst (interrupt ?m)) = INTERRUPTED
        \<and> stopped (fst (interrupt ?m))
        \<and> fillerInjector (fst (interrupt ?m)) = reset_filler (fillerInjector ?m)
        \<and> fillersUsed (fillerInjector (fst (interrupt ?m))) = 0
        \<and> lastFillerIndex (fillerInjector (fst (interrupt ?m))) = Num (- 1)
        \<and> bufferManager (fst (interrupt ?m)) = clear (bufferManager ?m)
        \<and> getBufferedChunks (fst (interrupt ?m)) = []
        \<and> (\<forall>now chunk. processChunk now chunk (fst (interrupt ?m)) = (fst (interrupt ?m), None))
        \<and> (\<forall>now. snd (complete now (fst (interrupt ?m))) = None
                 \<and> getState_flow (fst (complete now (fst (interrupt ?m)))) = INTERRUPTED)"
      by simp
  qed
next
  fix es :: "wrap_event list"
  let ?it = "wrap_steps es (idle c0)"
  let ?it' = "wrap_steps (es @ [CallInterrupt]) (idle c0)"
  have "fc_inv (ctl (idle c0))" using fc_inv_new [OF assms(2)] by (simp add: idle_def)
  then have inv: "fc_inv (ctl ?it)" by (rule fc_inv_steps)
  have it': "?it' = ?it\<lparr>ctl := fst (interrupt_fc (ctl ?it))\<rparr>"
    by (simp add: wrap_steps_snoc)
  show "getState_flow (ctl ?it) \<noteq> SPEAKING \<and> getState_flow (ctl ?it) \<noteq> WAITING \<longrightarrow>
          interrupt_fc (ctl ?it) = (ctl ?it, None)"
    by (simp add: interrupt_fc_noop)
  show "getState_flow (ctl ?it) = SPEAKING \<or> getState_flow (ctl ?it) = WAITING \<longrightarrow>
          snd (interrupt_fc (ctl ?it)) = None
        \<and> getState_flow (ctl ?it') = INTERRUPTED
        \<and> stopped (ctl ?it')
        \<and> fillerInjector (ctl ?it') = reset_filler (fillerInjector (ctl ?it))
        \<and> fillersUsed (fillerInjector (ctl ?it')) = 0
        \<and> lastFillerIndex (fillerInjector (ctl ?it')) = Num (- 1)
        \<and> getBufferedChunks (ctl ?it') = []
        \<and> (\<forall>es'. (\<forall>e \<in> set es'. \<not> is_Begin e) \<longrightarrow>
               yielded (wrap_steps es' ?it') = yielded ?it
             \<and> getState_flow (ctl (wrap_steps es' ?it')) = INTERRUPTED
             \<and> getBufferedChunks (ctl (wrap_steps es' ?it')) = [])
        \<and> (\<forall>now chunk. \<not> running (wrap_step (Input now chunk) ?it'))"
  proof
    assume st: "getState_flow (ctl ?it) = SPEAKING \<or> getState_flow (ctl ?it) = WAITING"
    note e = interrupt_fc_effect [OF inv st]
    from inv have "buffer_inv (bufferManager (ctl ?it))" by (simp add: fc_inv_def)
    then have empty: "getBufferedChunks (ctl ?it') = []"
      by (simp add: it' getBufferedChunks_def e(5) getAll_clear)
    from e(2) have int: "getState_flow (ctl ?it') = INTERRUPTED" by (simp add: it')
    from e(4) have zeroed: "fillersUsed (fillerInjector (ctl ?it')) = 0"
      "lastFillerIndex (fillerInjector (ctl ?it')) = Num (- 1)"
      by (simp_all add: it' reset_filler_def)
    have later: "\<forall>es'. (\<forall>e \<in> set es'. \<not> is_Begin e) \<longrightarrow>
               yielded (wrap_steps es' ?it') = yielded ?it
             \<and> getState_flow (ctl (wrap_steps es' ?it')) = INTERRUPTED
             \<and> getBufferedChunks (ctl (wrap_steps es' ?it')) = []"
    proof (intro allI impI)
      fix es' :: "wrap_event list"
      assume "\<forall>e \<in> set es'. \<not> is_Begin e"
      from interrupted_steps [OF int this] empty
      show "yielded (wrap_steps es' ?it') = yielded ?it
          \<and> getState_flow (ctl (wrap_steps es' ?it')) = INTERRUPTED
          \<and> getBufferedChunks (ctl (wrap_steps es' ?it')) = []"
        by (simp add: getBufferedChunks_def) (simp add: it')
    qed
    from e empty int zeroed later interrupted_pull [OF int]
    show "snd (interrupt_fc (ctl ?it)) = None
        \<and> getState_flow (ctl ?it') = INTERRUPTED
        \<and> stopped (ctl ?it')
        \<and> fillerInjector (ctl ?it') = reset_filler (fillerInjector (ctl ?it))
        \<and> fillersUsed (fillerInjector (ctl ?it')) = 0
        \<and> lastFillerIndex (fillerInjector (ctl ?it')) = Num (- 1)
        \<and> getBufferedChunks (ctl ?it') = []
        \<and> (\<forall>es'. (\<forall>e \<in> set es'. \<not> is_Begin e) \<longrightarrow>
               yielded (wrap_steps es' ?it') = yielded ?it
             \<and> getState_flow (ctl (wrap_steps es' ?it')) = INTERRUPTED
             \<and> getBufferedChunks (ctl (wrap_steps es' ?it')) = [])
        \<and> (\<forall>now chunk. \<not> running (wrap_step (Input now chunk) ?it'))"
      by (simp add: it')
  qed
qed

theorem C3_interrupt_witness:
  "new_FlowManager no_options () = Inr fresh_manager
   \<and> new_FlowController no_options_c () = Inr fresh_controller
   \<and> getState_flow (run [Start 0, ProcessChunk 10 ''a'', ProcessChunk 20 ''b''] fresh_manager)
       = SPEAKING
   \<and> getBufferedChunks (run [Start 0, ProcessChunk 10 ''a'', ProcessChunk 20 ''b''] fresh_manager)
       = [''a'', ''b'']
   \<and> getBufferedChunks
        (fst (interrupt (run [Start 0, ProcessChunk 10 ''a'', ProcessChunk 20 ''b''] fresh_manager)))
       = []
   \<and> getState_flow
        (fst (complete 30
           (fst (interrupt
              (run [Start 0, ProcessChunk 10 ''a'', ProcessChunk 20 ''b''] fresh_manager)))))
       = INTERRUPTED
   \<and> getState_flow (run [Start 0, TimerFires 0 700] fresh_manager) = WAITING
   \<and> fillerInjector (run [Start 0, TimerFires 0 700] fresh_manager)
       = \<lparr>phrases = [''um'', ''let me think'', ''hmm''], maxFillers = 3, fillersUsed = 1,
          lastFillerIndex = Num 0\<rparr>
   \<and> fillersUsed (fillerInjector (fst (interrupt (run [Start 0, TimerFires 0 700] fresh_manager))))
       = 0
   \<and> lastFillerIndex
        (fillerInjector (fst (interrupt (run [Start 0, TimerFires 0 700] fresh_manager))))
       = Num (- 1)
   \<and> getState_flow (ctl (wrap_steps [Begin 0, Timeout 0 700] (idle fresh_controller))) = WAITING
   \<and> fillersUsed (fillerInjector (ctl (wrap_steps [Begin 0, Timeout 0 700] (idle fresh_controller))))
       = 1
   \<and> fillersUsed
        (fillerInjector
           (ctl (wrap_steps ([Begin 0, Timeout 0 700] @ [CallInterrupt]) (idle fresh_controller))))
       = 0
   \<and> getState_flow (ctl (wrap_steps [Begin 0, Input 10 ''chunk1''] (idle fresh_controller)))
       = SPEAKING
   \<and> yielded (wrap_steps [Begin 0, Input 10 ''chunk1''] (idle fresh_controller)) = [''chunk1'']
   \<and> yielded
        (wrap_steps [Input 20 ''chunk2'', Input 30 ''chunk3'']
           (wrap_steps ([Begin 0, Input 10 ''chunk1''] @ [CallInterrupt]) (idle fresh_controller)))
       = [''chunk1'']"
proof -
  let ?cs = "[Start 0, ProcessChunk 10 ''a'', ProcessChunk 20 ''b''] :: unit call list"
  let ?es = "[Begin 0, Input 10 ''chunk1'']"
  let ?es' = "[Input 20 ''chunk2'', Input 30 ''chunk3'']"
  have speaking: "getState_flow (run ?cs fresh_manager) = SPEAKING"
    by (simp add: fresh_manager_def method_defs)
  have buffered: "getBufferedChunks (run ?cs fresh_manager) = [''a'', ''b'']"
    by (simp add: fresh_manager_def method_defs)
  have speaking_c: "getState_flow (ctl (wrap_steps ?es (idle fresh_controller))) = SPEAKING"
    by (simp add: fresh_controller_def method_defs)
  have yielded_c: "yielded (wrap_steps ?es (idle fresh_controller)) = [''chunk1'']"
    by (simp add: fresh_controller_def method_defs)
  have later: "\<forall>e \<in> set ?es'. \<not> is_Begin e" by simp
  let ?stalled = "[Start 0, TimerFires 0 700] :: unit call list"
  let ?stalled_c = "[Begin 0, Timeout 0 700]"
  have waiting: "getState_flow (run ?stalled fresh_manager) = WAITING"
    by (simp add: fresh_manager_def method_defs)
  have used: "fillerInjector (run ?stalled fresh_manager)
       = \<lparr>phrases = [''um'', ''let me think'', ''hmm''], maxFillers = 3, fillersUsed = 1,
          lastFillerIndex = Num 0\<rparr>"
    by (simp add: fresh_manager_def method_defs)
  have waiting_c: "getState_flow (ctl (wrap_steps ?stalled_c (idle fresh_controller))) = WAITING"
    by (simp add: fresh_controller_def method_defs)
  have used_c: "fillersUsed (fillerInjector (ctl (wrap_steps ?stalled_c (idle fresh_controller)))) = 1"
    by (simp add: fresh_controller_def method_defs)
  note c3 = C3_interrupt [OF new_fresh_manager new_fresh_controller]
  from c3 [THEN conjunct1, rule_format, of ?stalled, THEN conjunct2] waiting
  have zero: "fillersUsed (fillerInjector (fst (interrupt (run ?stalled fresh_manager)))) = 0"
    "lastFillerIndex (fillerInjector (fst (interrupt (run ?stalled fresh_manager)))) = Num (- 1)"
    by blast+
  from c3 [THEN conjunct2, rule_format, of ?stalled_c, THEN conjunct2] waiting_c
  have zero_c: "fillersUsed (fillerInjector
           (ctl (wrap_steps (?stalled_c @ [CallInterrupt]) (idle fresh_controller)))) = 0"
    by blast
  from c3 [THEN conjunct1, rule_format, of ?cs, THEN conjunct2] speaking
  have m: "getBufferedChunks (fst (interrupt (run ?cs fresh_manager))) = []"
    "getState_flow (fst (complete 30 (fst (interrupt (run ?cs fresh_manager))))) = INTERRUPTED"
    by simp_all
  from c3 [THEN conjunct2, rule_format, of ?es, THEN conjunct2] speaking_c later
  have "yielded (wrap_steps ?es' (wrap_steps (?es @ [CallInterrupt]) (idle fresh_controller)))
          = yielded (wrap_steps ?es (idle fresh_controller))"
    by blast
  with m speaking buffered speaking_c yielded_c new_fresh_manager new_fresh_controller
    waiting used zero waiting_c used_c zero_c
  show ?thesis by simp
qed

text \<open>
  Claim C9, as the code has it. The claim says that constructing the flow components with
  an empty filler-phrase list while fillers are enabled fails. No constructor looks at
  the phrase list: the manager and the controller are both constructed.
\<close>

theorem C9_counterexample:
  "\<not> isl (new_FlowManager
             \<lparr>opt_stallThresholdMs = None, opt_fillerPhrases = Some [],
              opt_enableFillers = Some True, opt_maxFillersPerResponse = None,
              opt_bufferSize = None\<rparr> ())
   \<and> \<not> isl (new_FlowController
               \<lparr>opt_stallThresholdMs_c = None, opt_fillerPhrases_c = Some [],
                opt_enableFillers_c = Some True, opt_maxFillersPerResponse_c = None,
                opt_onFillerInjected = None, opt_onStallDetected = None,
                opt_onFirstChunk = None\<rparr> ())"
  by (simp add: new_FlowManager_def new_FlowController_def new_BufferManager_def nullish_def)

text \<open>
  Claim C9, amended. Construction fails exactly when the buffer capacity is not positive:
  \<^verbatim>\<open>new BufferManager(n)\<close> fails if and only if \<open>n \<le> 0\<close>, and \<^verbatim>\<open>new FlowManager(cfg)\<close>
  fails if and only if the buffer size of the configuration (10 when absent) is not
  positive, in both cases with the error \<^verbatim>\<open>Buffer size must be positive\<close>. The phrase
  list is not validated: the controller, whose buffer has capacity 10, is constructed for
  every configuration, and with an empty phrase list the injector hands out no phrase.
\<close>

theorem C9_construction_fails_iff_capacity_not_positive:
  "(isl (new_BufferManager n) \<longleftrightarrow> n \<le> 0)
   \<and> (n \<le> 0 \<longrightarrow> new_BufferManager n = Inl (Error ''Buffer size must be positive''))
   \<and> (isl (new_FlowManager cfg u) \<longleftrightarrow> nullish (opt_bufferSize cfg) 10 \<le> 0)
   \<and> (nullish (opt_bufferSize cfg) 10 \<le> 0 \<longrightarrow>
         new_FlowManager cfg u = Inl (Error ''Buffer size must be positive''))
   \<and> \<not> isl (new_FlowController cfg' u')
   \<and> fst (getFiller (new_FillerInjector [] m)) = None"
  by (auto simp: new_BufferManager_def new_FlowManager_def new_FlowController_def Let_def
      getFiller_def new_FillerInjector_def)

theorem C9_construction_fails_iff_capacity_not_positive_witness:
  "(0 :: int) \<le> 0
   \<and> new_BufferManager 0 = Inl (Error ''Buffer size must be positive'')
   \<and> nullish (opt_bufferSize (no_options\<lparr>opt_bufferSize := Some (- 1)\<rparr>)) 10 \<le> 0
   \<and> new_FlowManager (no_options\<lparr>opt_bufferSize := Some (- 1)\<rparr>) ()
       = Inl (Error ''Buffer size must be positive'')
   \<and> \<not> isl (new_FlowManager no_options ())"
proof -
  have h1: "(0 :: int) \<le> 0" by simp
  have h2: "nullish (opt_bufferSize (no_options\<lparr>opt_bufferSize := Some (- 1)\<rparr>)) 10 \<le> 0"
    by (simp add: nullish_def)
  have h3: "\<not> nullish (opt_bufferSize no_options) 10 \<le> 0"
    by (simp add: nullish_def no_options_def)
  from C9_construction_fails_iff_capacity_not_positive
         [of 0 "no_options\<lparr>opt_bufferSize := Some (- 1)\<rparr>" "()" no_options_c "()" 0] h1 h2
  have a: "new_BufferManager 0 = Inl (Error ''Buffer size must be positive'')"
    and b: "new_FlowManager (no_options\<lparr>opt_bufferSize := Some (- 1)\<rparr>) ()
              = Inl (Error ''Buffer size must be positive'')"
    by simp_all
  from C9_construction_fails_iff_capacity_not_positive
         [of 1 no_options "()" no_options_c "()" 0] h3
  have c: "\<not> isl (new_FlowManager no_options ())"
    by simp
  from a b c h1 h2 show ?thesis by simp
qed

text \<open>
  Claim C10. In a manager reached from the constructor by any calls: \<^verbatim>\<open>start\<close> throws
  the already-started error and changes nothing if and only if \<open>startTime\<close> is set, and
  otherwise returns and sets it; no call but \<^verbatim>\<open>complete\<close> clears \<open>startTime\<close>, and
  \<^verbatim>\<open>complete\<close> on a started manager returns and clears it. So in a manager that is not
  started, after \<^verbatim>\<open>start\<close> and \<^verbatim>\<open>interrupt\<close> the state is \<open>INTERRUPTED\<close> and a
  second \<^verbatim>\<open>start\<close> throws the already-started error; after a following
  \<^verbatim>\<open>complete\<close>, which leaves the state \<open>INTERRUPTED\<close>, \<^verbatim>\<open>start\<close> is accepted and the
  state is \<open>WAITING\<close>.
\<close>

theorem C10_restart_needs_complete:
  fixes m0 :: "'u FlowManager"
  assumes "new_FlowManager cfg u = Inr m0"
  shows "\<forall>cs.
           (\<forall>now. startTime (run cs m0) \<noteq> None \<longrightarrow>
                     start now (run cs m0) = (run cs m0, Some already_started))
         \<and> (\<forall>now. startTime (run cs m0) = None \<longrightarrow>
                     snd (start now (run cs m0)) = None
                   \<and> startTime (fst (start now (run cs m0))) = Some now
                   \<and> getState_flow (fst (start now (run cs m0))) = WAITING)
         \<and> (\<forall>c. startTime (run cs m0) \<noteq> None \<and> \<not> is_Complete c \<longrightarrow>
                   startTime (fst (perform c (run cs m0))) = startTime (run cs m0))
         \<and> (\<forall>now. startTime (run cs m0) \<noteq> None \<longrightarrow>
                     snd (complete now (run cs m0)) = None
                   \<and> startTime (fst (complete now (run cs m0))) = None)
         \<and> (\<forall>t1 t2 t3 t4.
               startTime (run cs m0) = None \<longrightarrow>
                 getState_flow (run (cs @ [Start t1, Interrupt]) m0) = INTERRUPTED
               \<and> start t2 (run (cs @ [Start t1, Interrupt]) m0)
                   = (run (cs @ [Start t1, Interrupt]) m0, Some already_started)
               \<and> snd (complete t3 (run (cs @ [Start t1, Interrupt]) m0)) = None
               \<and> getState_flow (run (cs @ [Start t1, Interrupt, Complete t3]) m0) = INTERRUPTED
               \<and> snd (start t4 (run (cs @ [Start t1, Interrupt, Complete t3]) m0)) = None
               \<and> getState_flow (run (cs @ [Start t1, Interrupt, Complete t3, Start t4]) m0)
                   = WAITING)"
proof (intro allI conjI impI)
  fix cs :: "'u call list" and now
  have inv: "\<And>cs. fm_inv (run cs m0)" using fm_inv_new [OF assms] by (rule fm_inv_run)
  {
    assume "startTime (run cs m0) \<noteq> None"
    then show "start now (run cs m0) = (run cs m0, Some already_started)"
      by (rule start_refused)
  }
  {
    assume "startTime (run cs m0) = None"
    from start_accepted [OF inv this, of now]
    show "snd (start now (run cs m0)) = None"
      "startTime (fst (start now (run cs m0))) = Some now"
      "getState_flow (fst (start now (run cs m0))) = WAITING"
      by simp_all
  }
  {
    assume "startTime (run cs m0) \<noteq> None"
    from complete_accepted [OF inv this, of now]
    show "snd (complete now (run cs m0)) = None"
      "startTime (fst (complete now (run cs m0))) = None"
      by simp_all
  }
next
  fix cs :: "'u call list" and c :: "'u call"
  have inv: "fm_inv (run cs m0)" using fm_inv_new [OF assms] by (rule fm_inv_run)
  assume "startTime (run cs m0) \<noteq> None \<and> \<not> is_Complete c"
  with startTime_kept [OF inv, of c]
  show "startTime (fst (perform c (run cs m0))) = startTime (run cs m0)" by simp
next
  fix cs :: "'u call list" and t1 t2 t3 t4 :: int
  have inv: "\<And>cs. fm_inv (run cs m0)" using fm_inv_new [OF assms] by (rule fm_inv_run)
  assume idle: "startTime (run cs m0) = None"
  let ?m1 = "run (cs @ [Start t1]) m0"
  let ?m2 = "run (cs @ [Start t1, Interrupt]) m0"
  let ?m3 = "run (cs @ [Start t1, Interrupt, Complete t3]) m0"
  let ?m4 = "run (cs @ [Start t1, Interrupt, Complete t3, Start t4]) m0"
  have m1: "?m1 = fst (start t1 (run cs m0))" by (simp add: run_def)
  have m2: "?m2 = fst (interrupt ?m1)" by (simp add: run_def)
  have m3: "?m3 = fst (complete t3 ?m2)" by (simp add: run_def)
  have m4: "?m4 = fst (start t4 ?m3)" by (simp add: run_def)
  from start_accepted [OF inv idle, of t1]
  have s1: "startTime ?m1 = Some t1" "getState_flow ?m1 = WAITING" by (simp_all add: m1)
  from interrupt_effect [OF inv, of "cs @ [Start t1]"] s1
  have s2: "getState_flow ?m2 = INTERRUPTED" "startTime ?m2 \<noteq> None"
    by (simp_all add: m2)
  from interrupted_complete [OF s2(2) s2(1), of t3]
  have s3: "snd (complete t3 ?m2) = None" "getState_flow ?m3 = INTERRUPTED" "startTime ?m3 = None"
    by (simp_all add: m3)
  from start_accepted [OF inv s3(3), of t4]
  have s4: "snd (start t4 ?m3) = None" "getState_flow ?m4 = WAITING"
    by (simp_all add: m4)
  show "getState_flow ?m2 = INTERRUPTED" by (rule s2(1))
  show "start t2 ?m2 = (?m2, Some already_started)" using s2(2) by (rule start_refused)
  show "snd (complete t3 ?m2) = None" by (rule s3(1))
  show "getState_flow ?m3 = INTERRUPTED" by (rule s3(2))
  show "snd (start t4 ?m3) = None" by (rule s4(1))
  show "getState_flow ?m4 = WAITING" by (rule s4(2))
qed

theorem C10_restart_needs_complete_witness:
  "new_FlowManager no_options () = Inr fresh_manager
   \<and> startTime (run [] fresh_manager) = None
   \<and> snd (start 5 (run ([] @ [Start 0, Interrupt]) fresh_manager)) = Some already_started
   \<and> snd (start 9 (run ([] @ [Start 0, Interrupt, Complete 7]) fresh_manager)) = None
   \<and> startTime (run [Start 0, Interrupt] fresh_manager) = Some 0"
proof -
  have idle: "startTime (run [] fresh_manager) = None"
    by (simp add: run_def fresh_manager_def)
  have started: "startTime (run [Start 0, Interrupt] fresh_manager) = Some 0"
    by (simp add: fresh_manager_def method_defs)
  from C10_restart_needs_complete [OF new_fresh_manager, rule_format, of "[]"] idle
  have "start 5 (run ([] @ [Start 0, Interrupt]) fresh_manager)
          = (run ([] @ [Start 0, Interrupt]) fresh_manager, Some already_started)"
    and "snd (start 9 (run ([] @ [Start 0, Interrupt, Complete 7]) fresh_manager)) = None"
    by blast+
  with idle started new_fresh_manager show ?thesis by simp
qed

section \<open>Claims about the timer callback of the stall detector\<close>

text \<open>
  Claim C7, at a failing input. A detector with a threshold of \<open>700\<close> is started at time
  \<open>0\<close> and the runtime runs its timeout callback when the clock reads \<open>699\<close>, so that
  \<open>elapsed < threshold\<close>. The claim says that the detector then re-arms the timer for
  the remaining millisecond, so that the stall is still reported. The callback has no
  branch for this case: the stall callback is not called, no timeout is pending
  afterwards, and the detector still holds its last-activity time. In a manager the same
  firing leaves nothing pending, and however long the silence lasts no stall is counted;
  when the same timeout fires on time, at \<open>700\<close>, the detector re-arms and a stall is
  counted for each threshold of silence.
\<close>

theorem C7_early_timeout_disarms_detector:
  "timeout_fires 0 (recording_onStall None) 699
     (start_detector 0 (new_StallDetector 700, no_timers)) []
   = ((\<lparr>lastChunkTime = Some 0, stallTimer = Some 0, thresholdMs = 700\<rparr>,
       \<lparr>nextTimer = 1, pending = []\<rparr>), [], None)
   \<and> pending (snd (start_detector 0 (new_StallDetector 700, no_timers))) = [(0, 700)]
   \<and> new_FlowManager no_options () = Inr fresh_manager
   \<and> pending (timers (run [Start 0, TimerFires 0 699] fresh_manager)) = []
   \<and> stallsDetected
        (stats (run [Start 0, TimerFires 0 699, TimerFires 0 1400, TimerFires 1 2100]
                  fresh_manager)) = 0
   \<and> pending (timers (run [Start 0, TimerFires 0 700] fresh_manager)) = [(1, 700)]
   \<and> stallsDetected
        (stats (run [Start 0, TimerFires 0 700, TimerFires 1 1400] fresh_manager)) = 2"
proof -
  have detector: "timeout_fires 0 (recording_onStall None) 699
     (start_detector 0 (new_StallDetector 700, no_timers)) []
   = ((\<lparr>lastChunkTime = Some 0, stallTimer = Some 0, thresholdMs = 700\<rparr>,
       \<lparr>nextTimer = 1, pending = []\<rparr>), [], None)"
    by (simp add: timeout_fires_def stallCheck_def start_detector_def scheduleStallCheck_def
        clearTimer_def setTimeout_def clearTimeout_def new_StallDetector_def no_timers_def)
  have armed: "pending (snd (start_detector 0 (new_StallDetector 700, no_timers))) = [(0, 700)]"
    by (simp add: start_detector_def scheduleStallCheck_def clearTimer_def setTimeout_def
        new_StallDetector_def no_timers_def)
  have dead: "pending (timers (run [Start 0, TimerFires 0 699] fresh_manager)) = []"
    by (simp add: fresh_manager_def method_defs)
  have silent: "stallsDetected
        (stats (run [Start 0, TimerFires 0 699, TimerFires 0 1400, TimerFires 1 2100]
                  fresh_manager)) = 0"
    by (simp add: fresh_manager_def method_defs)
  have rearmed: "pending (timers (run [Start 0, TimerFires 0 700] fresh_manager)) = [(1, 700)]"
    by (simp add: fresh_manager_def method_defs)
  have reported: "stallsDetected
        (stats (run [Start 0, TimerFires 0 700, TimerFires 1 1400] fresh_manager)) = 2"
    by (simp add: fresh_manager_def method_defs)
  from detector armed new_fresh_manager dead silent rearmed reported show ?thesis
    by simp
qed

text \<open>
  Claim C8, at a failing input. A detector with a threshold of \<open>700\<close> is started at time
  \<open>0\<close> with a stall callback that throws, and its timeout fires at time \<open>700\<close>. The claim
  says that the detector re-arms its timer all the same. The call of
  \<^verbatim>\<open>scheduleStallCheck\<close> follows the call of the callback with no \<^verbatim>\<open>try\<close> around it:
  the callback is called with \<open>700\<close>, its exception leaves the timer callback, and no
  timeout is pending afterwards; with a callback that returns, one timeout for another
  \<open>700\<close> is pending. A controller constructed with an \<^verbatim>\<open>onStallDetected\<close> callback
  that throws loses its detector in the same way: after the first stall nothing is
  pending and no further stall is counted, where the controller with the default
  callbacks counts the second stall.
\<close>

theorem C8_throwing_callback_disarms_detector:
  "timeout_fires 0 (recording_onStall (Some (Thrown ''boom''))) 700
     (start_detector 0 (new_StallDetector 700, no_timers)) []
   = ((\<lparr>lastChunkTime = Some 0, stallTimer = Some 0, thresholdMs = 700\<rparr>,
       \<lparr>nextTimer = 1, pending = []\<rparr>), [700], Some (Thrown ''boom''))
   \<and> timeout_fires 0 (recording_onStall None) 700
       (start_detector 0 (new_StallDetector 700, no_timers)) []
     = ((\<lparr>lastChunkTime = Some 0, stallTimer = Some 1, thresholdMs = 700\<rparr>,
         \<lparr>nextTimer = 2, pending = [(1, 700)]\<rparr>), [700], None)
   \<and> new_FlowController throwing_config () = Inr throwing_controller
   \<and> pending (timers (ctl (wrap_steps [Begin 0, Timeout 0 700] (idle throwing_controller)))) = []
   \<and> stallsDetected
        (stats (ctl (wrap_steps [Begin 0, Timeout 0 700, Timeout 0 1400, Timeout 1 1400]
                       (idle throwing_controller)))) = 1
   \<and> pending (timers (ctl (wrap_steps [Begin 0, Timeout 0 700] (idle fresh_controller))))
       = [(1, 700)]
   \<and> stallsDetected
        (stats (ctl (wrap_steps [Begin 0, Timeout 0 700, Timeout 0 1400, Timeout 1 1400]
                       (idle fresh_controller)))) = 2"
proof -
  have throws: "timeout_fires 0 (recording_onStall (Some (Thrown ''boom''))) 700
     (start_detector 0 (new_StallDetector 700, no_timers)) []
   = ((\<lparr>lastChunkTime = Some 0, stallTimer = Some 0, thresholdMs = 700\<rparr>,
       \<lparr>nextTimer = 1, pending = []\<rparr>), [700], Some (Thrown ''boom''))"
    by (simp add: timeout_fires_def stallCheck_def start_detector_def scheduleStallCheck_def
        clearTimer_def setTimeout_def clearTimeout_def new_StallDetector_def no_timers_def
        recording_onStall_def)
  have returns: "timeout_fires 0 (recording_onStall None) 700
       (start_detector 0 (new_StallDetector 700, no_timers)) []
     = ((\<lparr>lastChunkTime = Some 0, stallTimer = Some 1, thresholdMs = 700\<rparr>,
         \<lparr>nextTimer = 2, pending = [(1, 700)]\<rparr>), [700], None)"
    by (simp add: timeout_fires_def stallCheck_def start_detector_def scheduleStallCheck_def
        clearTimer_def setTimeout_def clearTimeout_def new_StallDetector_def no_timers_def
        recording_onStall_def)
  have new: "new_FlowController throwing_config () = Inr throwing_controller"
    by (simp add: throwing_config_def throwing_controller_def constructor_defs)
  have dead: "pending (timers (ctl (wrap_steps [Begin 0, Timeout 0 700]
                 (idle throwing_controller)))) = []"
    by (simp add: throwing_controller_def fresh_controller_def method_defs)
  have silent: "stallsDetected
        (stats (ctl (wrap_steps [Begin 0, Timeout 0 700, Timeout 0 1400, Timeout 1 1400]
                       (idle throwing_controller)))) = 1"
    by (simp add: throwing_controller_def fresh_controller_def method_defs)
  have rearmed: "pending (timers (ctl (wrap_steps [Begin 0, Timeout 0 700]
                    (idle fresh_controller)))) = [(1, 700)]"
    by (simp add: fresh_controller_def method_defs)
  have reported: "stallsDetected
        (stats (ctl (wrap_steps [Begin 0, Timeout 0 700, Timeout 0 1400, Timeout 1 1400]
                       (idle fresh_controller)))) = 2"
    by (simp add: fresh_controller_def method_defs)
  from throws returns new dead silent rearmed reported show ?thesis
    by simp
qed


end
